theory Spec2Isabelle
  imports Main
begin

unbundle bit_operations_syntax

section \<open>Python values used by \<open>src/api/brain.py\<close>\<close>

text \<open>
  A Python \<open>str\<close> is a sequence of Unicode code points, modelled as a list of naturals:
  \<open>chr(96 + x)\<close> can leave the 8-bit range of \<^typ>\<open>char\<close>. \<open>py\<close> turns an ASCII literal
  into such a list.
\<close>

type_synonym pystr = "nat list"

definition py :: "string \<Rightarrow> pystr" where
  "py s = map of_char s"

text \<open>The exceptions the modelled code can raise; \<open>KeyError\<close> carries the missing key.\<close>

datatype error = KeyError pystr | ValueError | IndexError | OverflowError

text \<open>\<open>s.split(sep)\<close> for a one-character separator: every occurrence splits, so the
  result is never empty and \<open>''''.split('_') = ['''']\<close>.\<close>

fun split_on :: "nat \<Rightarrow> pystr \<Rightarrow> pystr list" where
  "split_on sep [] = [[]]"
| "split_on sep (c # cs) =
     (if c = sep then [] # split_on sep cs
      else (case split_on sep cs of
              p # ps \<Rightarrow> (c # p) # ps
            | [] \<Rightarrow> [[c]]))"

text \<open>
  \<open>int(s)\<close> on text: surrounding white space is stripped, one sign is allowed, and at least
  one decimal digit must follow; anything else raises \<open>ValueError\<close>. The white space and
  digits are those of Latin-1 text (code points below 256). Python also reads the decimal
  digits and spaces of the rest of Unicode, and refuses numerals of more than 4300 digits;
  the model does neither, so it speaks for position texts in Latin-1 of ordinary length.
\<close>

definition is_space :: "nat \<Rightarrow> bool" where
  "is_space c \<longleftrightarrow> c \<in> {9, 10, 11, 12, 13, 28, 29, 30, 31, 32, 133, 160}"

definition is_digit :: "nat \<Rightarrow> bool" where
  "is_digit c \<longleftrightarrow> 48 \<le> c \<and> c \<le> 57"

definition strip :: "pystr \<Rightarrow> pystr" where
  "strip s = rev (dropWhile is_space (rev (dropWhile is_space s)))"

definition digits_value :: "pystr \<Rightarrow> int" where
  "digits_value ds = foldl (\<lambda>a c. 10 * a + int (c - 48)) 0 ds"

definition unsigned_int :: "pystr \<Rightarrow> error + int" where
  "unsigned_int ds =
     (if ds \<noteq> [] \<and> list_all is_digit ds then Inr (digits_value ds) else Inl ValueError)"

definition py_int :: "pystr \<Rightarrow> error + int" where
  "py_int s =
     (case strip s of
        [] \<Rightarrow> Inl ValueError
      | c # r \<Rightarrow>
          if c = 45 then map_sum id uminus (unsigned_int r)
          else if c = 43 then unsigned_int r
          else unsigned_int (c # r))"

text \<open>\<open>str(i)\<close>, also what an f-string writes for an integer: decimal digits, with a
  leading minus sign for a negative number.\<close>

fun nat_digits :: "nat \<Rightarrow> pystr" where
  "nat_digits n = (if n < 10 then [48 + n] else nat_digits (n div 10) @ [48 + n mod 10])"

declare nat_digits.simps [simp del]

definition py_str :: "int \<Rightarrow> pystr" where
  "py_str i = (if i < 0 then 45 # nat_digits (nat (- i)) else nat_digits (nat i))"

text \<open>\<open>chr(i)\<close>: \<open>OverflowError\<close> outside the range of a C \<open>int\<close>, \<open>ValueError\<close> outside
  \<open>range(0x110000)\<close>.\<close>

definition py_chr :: "int \<Rightarrow> error + nat" where
  "py_chr i =
     (if i < - (2 ^ 31) \<or> 2 ^ 31 \<le> i then Inl OverflowError
      else if i < 0 \<or> 1114112 \<le> i then Inl ValueError
      else Inr (nat i))"

section \<open>Coordinate helpers\<close>

text \<open>
  \<^verbatim>\<open>x, y = map(int, pos.split('_'))\<close>: the unpacking draws the integers one by one and
  raises \<open>ValueError\<close> when a part is not an integer, and when there are fewer or more than
  two parts.
\<close>

definition unpack_ints :: "pystr list \<Rightarrow> error + int \<times> int" where
  "unpack_ints parts =
     (case parts of
        [a, b] \<Rightarrow>
          (case py_int a of
             Inl e \<Rightarrow> Inl e
           | Inr x \<Rightarrow> (case py_int b of Inl e \<Rightarrow> Inl e | Inr y \<Rightarrow> Inr (x, y)))
      | _ \<Rightarrow> Inl ValueError)"

definition map_to_algebraic :: "pystr \<Rightarrow> error + pystr" where
  "map_to_algebraic pos =
     (case unpack_ints (split_on 95 pos) of
        Inl e \<Rightarrow> Inl e
      | Inr (x, y) \<Rightarrow>
          (case py_chr (96 + x) of
             Inl e \<Rightarrow> Inl e
           | Inr col \<Rightarrow> Inr (col # py_str y)))"

definition map_from_algebraic :: "pystr \<Rightarrow> error + pystr" where
  "map_from_algebraic square_name =
     (case square_name of
        col_char # row_char # _ \<Rightarrow>
          (let x = int col_char - 96 in
           case py_int [row_char] of
             Inl e \<Rightarrow> Inl e
           | Inr y \<Rightarrow> Inr (py_str x @ [95] @ py_str y))
      | _ \<Rightarrow> Inl IndexError)"

text \<open>
  The square names of the rules engine (the \<open>chess\<close> library): files \<open>a\<close> to \<open>h\<close>, ranks
  \<open>1\<close> to \<open>8\<close>, listed rank by rank, so that \<open>a1\<close> is square 0 and \<open>h8\<close> is square 63.
\<close>

definition FILE_NAMES :: "nat list" where
  "FILE_NAMES = [97, 98, 99, 100, 101, 102, 103, 104]"

definition RANK_NAMES :: "nat list" where
  "RANK_NAMES = [49, 50, 51, 52, 53, 54, 55, 56]"

definition SQUARE_NAMES :: "pystr list" where
  "SQUARE_NAMES = concat (map (\<lambda>r. map (\<lambda>f. [f, r]) FILE_NAMES) RANK_NAMES)"

text \<open>The external name of the square with file \<open>f\<close> and rank \<open>r\<close>: the text \<open>f_r\<close>.\<close>

definition pair_name :: "int \<Rightarrow> int \<Rightarrow> pystr" where
  "pair_name f r = py_str f @ [95] @ py_str r"

section \<open>The coordinate round trip\<close>

lemma nat_digits_small: "n < 10 \<Longrightarrow> nat_digits n = [48 + n]"
  by (simp add: nat_digits.simps)

lemma py_str_small: "0 \<le> i \<Longrightarrow> i < 10 \<Longrightarrow> py_str i = [48 + nat i]"
  by (simp add: py_str_def nat_digits_small)

lemma py_int_digit: "48 \<le> c \<Longrightarrow> c \<le> 57 \<Longrightarrow> py_int [c] = Inr (int c - 48)"
  by (auto simp: py_int_def strip_def is_space_def unsigned_int_def is_digit_def
      digits_value_def)

lemma split_pair:
  "48 \<le> a \<Longrightarrow> a \<le> 57 \<Longrightarrow> 48 \<le> b \<Longrightarrow> b \<le> 57 \<Longrightarrow> split_on 95 [a, 95, b] = [[a], [b]]"
  by simp

lemma to_algebraic_pair:
  assumes "1 \<le> f" "f \<le> 8" "1 \<le> r" "r \<le> 8"
  shows "map_to_algebraic (pair_name f r) = Inr [96 + nat f, 48 + nat r]"
proof -
  have name: "pair_name f r = [48 + nat f, 95, 48 + nat r]"
    using assms by (simp add: pair_name_def py_str_small)
  have parts: "split_on 95 [48 + nat f, 95, 48 + nat r] = [[48 + nat f], [48 + nat r]]"
    by (rule split_pair) (use assms in auto)
  have x: "py_int [48 + nat f] = Inr f" and y: "py_int [48 + nat r] = Inr r"
    using assms by (simp_all add: py_int_digit)
  have col: "py_chr (96 + f) = Inr (96 + nat f)"
    using assms by (simp add: py_chr_def nat_add_distrib)
  show ?thesis
    using assms
    by (simp add: map_to_algebraic_def name parts unpack_ints_def x y col py_str_small
        del: split_on.simps)
qed

lemma from_algebraic_pair:
  assumes "1 \<le> f" "f \<le> 8" "1 \<le> r" "r \<le> 8"
  shows "map_from_algebraic [96 + nat f, 48 + nat r] = Inr (pair_name f r)"
proof -
  have y: "py_int [48 + nat r] = Inr r"
    using assms by (simp add: py_int_digit)
  have x: "int (96 + nat f) - 96 = f"
    using assms by simp
  show ?thesis
    unfolding map_from_algebraic_def pair_name_def
    by (simp add: y x del: of_nat_add)
qed

lemma square_name_shape:
  assumes "name \<in> set SQUARE_NAMES"
  shows "\<exists>f r. 1 \<le> f \<and> f \<le> 8 \<and> 1 \<le> r \<and> r \<le> 8 \<and> name = [96 + nat f, 48 + nat r]"
proof -
  from assms obtain c d where name: "name = [c, d]"
    and c: "c \<in> set FILE_NAMES" and d: "d \<in> set RANK_NAMES"
    by (auto simp: SQUARE_NAMES_def)
  from c have "97 \<le> c \<and> c \<le> 104" by (auto simp: FILE_NAMES_def)
  moreover from d have "49 \<le> d \<and> d \<le> 56" by (auto simp: RANK_NAMES_def)
  ultimately have "1 \<le> int c - 96 \<and> int c - 96 \<le> 8 \<and> 1 \<le> int d - 48 \<and> int d - 48 \<le> 8
      \<and> name = [96 + nat (int c - 96), 48 + nat (int d - 48)]"
    using name by auto
  then show ?thesis by blast
qed

text \<open>
  Claim C9. For every pair \<open>(f, r)\<close> with \<open>1 \<le> f, r \<le> 8\<close>, mapping the external name
  \<open>f_r\<close> to the engine's algebraic name and back gives \<open>f_r\<close> again; and for every square
  name of the engine, mapping it to the external name and back gives the same square name.
\<close>

theorem coordinate_round_trip:
  "(1 \<le> f \<and> f \<le> 8 \<and> 1 \<le> r \<and> r \<le> 8 \<longrightarrow>
      (\<exists>a. map_to_algebraic (pair_name f r) = Inr a \<and> a \<in> set SQUARE_NAMES
          \<and> map_from_algebraic a = Inr (pair_name f r)))
   \<and> (name \<in> set SQUARE_NAMES \<longrightarrow>
      (\<exists>p. map_from_algebraic name = Inr p \<and> map_to_algebraic p = Inr name))"
proof (intro conjI impI)
  assume range: "1 \<le> f \<and> f \<le> 8 \<and> 1 \<le> r \<and> r \<le> 8"
  then have "f \<in> {1, 2, 3, 4, 5, 6, 7, 8}" and "r \<in> {1, 2, 3, 4, 5, 6, 7, 8}"
    by auto
  then have "nat f \<in> {1, 2, 3, 4, 5, 6, 7, 8}" and "nat r \<in> {1, 2, 3, 4, 5, 6, 7, 8}"
    by auto
  then have "96 + nat f \<in> set FILE_NAMES" and "48 + nat r \<in> set RANK_NAMES"
    by (auto simp: FILE_NAMES_def RANK_NAMES_def)
  then have "[96 + nat f, 48 + nat r] \<in> set SQUARE_NAMES"
    unfolding SQUARE_NAMES_def by auto
  with range show "\<exists>a. map_to_algebraic (pair_name f r) = Inr a \<and> a \<in> set SQUARE_NAMES
      \<and> map_from_algebraic a = Inr (pair_name f r)"
    by (simp add: to_algebraic_pair from_algebraic_pair)
next
  assume "name \<in> set SQUARE_NAMES"
  then obtain f r where "1 \<le> f" "f \<le> 8" "1 \<le> r" "r \<le> 8"
    and "name = [96 + nat f, 48 + nat r]"
    using square_name_shape by blast
  then show "\<exists>p. map_from_algebraic name = Inr p \<and> map_to_algebraic p = Inr name"
    by (simp add: to_algebraic_pair from_algebraic_pair)
qed

theorem coordinate_round_trip_witness:
  "map_to_algebraic (py ''3_5'') = Inr (py ''c5'')
   \<and> map_from_algebraic (py ''c5'') = Inr (py ''3_5'')
   \<and> py ''c5'' \<in> set SQUARE_NAMES"
proof -
  have name: "pair_name 3 5 = py ''3_5''"
    by (simp add: pair_name_def py_str_small py_def)
  have alg: "[96 + nat 3, 48 + nat 5] = py ''c5''"
    by (simp add: py_def)
  have "map_to_algebraic (pair_name 3 5) = Inr (py ''c5'')"
    using to_algebraic_pair [of 3 5] alg by simp
  then show ?thesis
    using coordinate_round_trip [of 3 5 "py ''c5''"] name
    by auto
qed


section \<open>Positions of the rules engine\<close>

text \<open>
  The piece kinds and pieces of the \<open>chess\<close> library. A colour is a truth value, as in the
  library: \<open>WHITE = True\<close>, \<open>BLACK = False\<close>.
\<close>

datatype piece_type = PAWN | KNIGHT | BISHOP | ROOK | QUEEN | KING

definition WHITE :: bool where "WHITE = True"
definition BLACK :: bool where "BLACK = False"

record piece =
  piece_type :: piece_type
  color :: bool

text \<open>
  A \<open>chess.Board\<close>, as far as the code reads and writes it: the occupant of each square
  (squares are numbered 0 to 63), the castling rights as a bit mask over the squares of the
  rooks, the side to move, and the engine's own record of the positions before each applied
  move, which undoing a move takes from.
\<close>

record board =
  piece_at :: "nat \<Rightarrow> piece option"
  castling_rights :: int
  turn :: bool
  stack :: "((nat \<Rightarrow> piece option) \<times> int \<times> bool) list"

text \<open>\<open>chess.Board(None)\<close>: no piece, no castling right, White to move.\<close>

definition empty_board :: board where
  "empty_board = \<lparr>piece_at = (\<lambda>square. None), castling_rights = 0, turn = WHITE, stack = []\<rparr>"

definition set_piece_at :: "board \<Rightarrow> nat \<Rightarrow> piece \<Rightarrow> board" where
  "set_piece_at b square p = b\<lparr>piece_at := (piece_at b)(square := Some p)\<rparr>"

text \<open>The masks of the four rook squares: \<open>BB_A1 = 1 << 0\<close>, \<open>BB_H1 = 1 << 7\<close>,
  \<open>BB_A8 = 1 << 56\<close>, \<open>BB_H8 = 1 << 63\<close>.\<close>

definition BB_A1 :: int where "BB_A1 = push_bit 0 1"
definition BB_H1 :: int where "BB_H1 = push_bit 7 1"
definition BB_A8 :: int where "BB_A8 = push_bit 56 1"
definition BB_H8 :: int where "BB_H8 = push_bit 63 1"

text \<open>\<open>chess.parse_square(name)\<close> is \<open>SQUARE_NAMES.index(name)\<close>, a \<open>ValueError\<close> for a name
  that is not in the list.\<close>

fun index_of :: "'a list \<Rightarrow> 'a \<Rightarrow> error + nat" where
  "index_of [] x = Inl ValueError"
| "index_of (y # ys) x = (if x = y then Inr 0 else map_sum id Suc (index_of ys x))"

definition parse_square :: "pystr \<Rightarrow> error + nat" where
  "parse_square name = index_of SQUARE_NAMES name"

section \<open>Board reconstruction\<close>

text \<open>
  One entry of the request's \<open>pieces\<close> object. The object itself is a Python dictionary,
  modelled as the list of its items in iteration order; its keys are distinct.
\<close>

record piece_record =
  type :: pystr
  position :: pystr
  captured :: bool
  moved :: bool

type_synonym pieces = "(pystr \<times> piece_record) list"

text \<open>\<open>d[k]\<close> raises \<open>KeyError\<close> for a missing key.\<close>

definition getitem :: "(pystr \<times> 'v) list \<Rightarrow> pystr \<Rightarrow> error + 'v" where
  "getitem d k = (case map_of d k of None \<Rightarrow> Inl (KeyError k) | Some v \<Rightarrow> Inr v)"

definition type_map :: "(pystr \<times> piece_type) list" where
  "type_map =
     [(py ''king'', KING), (py ''queen'', QUEEN), (py ''rook'', ROOK),
      (py ''bishop'', BISHOP), (py ''knight'', KNIGHT), (py ''pawn'', PAWN)]"

text \<open>\<open>xs[1]\<close> raises \<open>IndexError\<close> on a list with fewer than two elements.\<close>

definition second :: "'a list \<Rightarrow> error + 'a" where
  "second xs = (case xs of _ # x # _ \<Rightarrow> Inr x | _ \<Rightarrow> Inl IndexError)"

definition startswith :: "pystr \<Rightarrow> pystr \<Rightarrow> bool" where
  "startswith s prefix \<longleftrightarrow> take (length prefix) s = prefix"

text \<open>
  The body of the placement loop for a record that is not captured, up to the call of
  \<open>set_piece_at\<close>: the square and the piece, in the order the source computes them (colour,
  kind name, algebraic name, square, kind).
\<close>

definition placement :: "piece_record \<Rightarrow> error + nat \<times> piece" where
  "placement pc =
     (let color = (if startswith (type pc) (py ''w_'') then WHITE else BLACK) in
      case second (split_on 95 (type pc)) of
        Inl e \<Rightarrow> Inl e
      | Inr p_type \<Rightarrow>
          (case map_to_algebraic (position pc) of
             Inl e \<Rightarrow> Inl e
           | Inr alg_pos \<Rightarrow>
               (case parse_square alg_pos of
                  Inl e \<Rightarrow> Inl e
                | Inr square \<Rightarrow>
                    (case getitem type_map p_type of
                       Inl e \<Rightarrow> Inl e
                     | Inr t \<Rightarrow> Inr (square, \<lparr>piece_type = t, color = color\<rparr>)))))"

fun place_pieces :: "pieces \<Rightarrow> board \<Rightarrow> error + board" where
  "place_pieces [] b = Inr b"
| "place_pieces ((key, pc) # rest) b =
     (if \<not> captured pc then
        (case placement pc of
           Inl e \<Rightarrow> Inl e
         | Inr (square, p) \<Rightarrow> place_pieces rest (set_piece_at b square p))
      else place_pieces rest b)"

text \<open>
  \<^verbatim>\<open>if not pieces_data[key]['moved']: board.castling_rights |= bb\<close>
\<close>

definition grant_unless_moved :: "pieces \<Rightarrow> pystr \<Rightarrow> int \<Rightarrow> board \<Rightarrow> error + board" where
  "grant_unless_moved pieces_data key bb b =
     (case getitem pieces_data key of
        Inl e \<Rightarrow> Inl e
      | Inr rook \<Rightarrow>
          Inr (if \<not> moved rook then b\<lparr>castling_rights := castling_rights b OR bb\<rparr> else b))"

text \<open>
  The rights of one side: the king's record is looked up first, and the two rook records
  only when the king has not moved.
\<close>

definition side_castling ::
  "pieces \<Rightarrow> pystr \<Rightarrow> pystr \<Rightarrow> int \<Rightarrow> pystr \<Rightarrow> int \<Rightarrow> board \<Rightarrow> error + board" where
  "side_castling pieces_data king rook2 bb_h rook1 bb_a b =
     (case getitem pieces_data king of
        Inl e \<Rightarrow> Inl e
      | Inr k \<Rightarrow>
          if \<not> moved k then
            (case grant_unless_moved pieces_data rook2 bb_h b of
               Inl e \<Rightarrow> Inl e
             | Inr b' \<Rightarrow> grant_unless_moved pieces_data rook1 bb_a b')
          else Inr b)"

definition reconstruct_board :: "pieces \<Rightarrow> error + board" where
  "reconstruct_board pieces_data =
     (case place_pieces pieces_data empty_board of
        Inl e \<Rightarrow> Inl e
      | Inr b0 \<Rightarrow>
          (case side_castling pieces_data (py ''w_king'') (py ''w_rook2'') BB_H1
                  (py ''w_rook1'') BB_A1 (b0\<lparr>castling_rights := 0\<rparr>) of
             Inl e \<Rightarrow> Inl e
           | Inr b1 \<Rightarrow>
               (case side_castling pieces_data (py ''b_king'') (py ''b_rook2'') BB_H8
                       (py ''b_rook1'') BB_A8 b1 of
                  Inl e \<Rightarrow> Inl e
                | Inr b2 \<Rightarrow> Inr (b2\<lparr>turn := BLACK\<rparr>))))"

section \<open>Castling rights of the built position\<close>

text \<open>The vocabulary of the claims about castling rights.\<close>

definition has_castling_right :: "board \<Rightarrow> int \<Rightarrow> bool" where
  "has_castling_right b bb \<longleftrightarrow> castling_rights b AND bb \<noteq> 0"

definition not_moved :: "pieces \<Rightarrow> pystr \<Rightarrow> bool" where
  "not_moved pieces_data key =
     (case map_of pieces_data key of Some r \<Rightarrow> \<not> moved r | None \<Rightarrow> False)"

definition has_moved :: "pieces \<Rightarrow> pystr \<Rightarrow> bool" where
  "has_moved pieces_data key =
     (case map_of pieces_data key of Some r \<Rightarrow> moved r | None \<Rightarrow> False)"

text \<open>The four rights: the king's record, the rook's record, the mask of the right.\<close>

definition castling_table :: "(pystr \<times> pystr \<times> int) list" where
  "castling_table =
     [(py ''w_king'', py ''w_rook2'', BB_H1), (py ''w_king'', py ''w_rook1'', BB_A1),
      (py ''b_king'', py ''b_rook2'', BB_H8), (py ''b_king'', py ''b_rook1'', BB_A8)]"

definition castling_keys :: "pystr list" where
  "castling_keys =
     [py ''w_king'', py ''w_rook1'', py ''w_rook2'', py ''b_king'', py ''b_rook1'', py ''b_rook2'']"

definition right_if :: "pieces \<Rightarrow> pystr \<Rightarrow> pystr \<Rightarrow> int \<Rightarrow> int" where
  "right_if pieces_data king rook bb =
     (if not_moved pieces_data king \<and> not_moved pieces_data rook then bb else 0)"

lemma grant_unless_moved_Inr:
  assumes "grant_unless_moved pd key bb b = Inr b'"
  shows "b' = b\<lparr>castling_rights := castling_rights b OR (if not_moved pd key then bb else 0)\<rparr>"
  using assms
  by (auto simp: grant_unless_moved_def getitem_def not_moved_def split: option.splits)

lemma side_castling_Inr:
  assumes "side_castling pd king rook2 bb_h rook1 bb_a b = Inr b'"
  shows "b' = b\<lparr>castling_rights :=
           castling_rights b OR right_if pd king rook2 bb_h OR right_if pd king rook1 bb_a\<rparr>"
proof (cases "not_moved pd king")
  case True
  then obtain k where k: "map_of pd king = Some k" "\<not> moved k"
    by (auto simp: not_moved_def split: option.splits)
  with assms obtain b1 where b1: "grant_unless_moved pd rook2 bb_h b = Inr b1"
    and b': "grant_unless_moved pd rook1 bb_a b1 = Inr b'"
    by (auto simp: side_castling_def getitem_def split: sum.splits)
  show ?thesis
    using grant_unless_moved_Inr [OF b1] grant_unless_moved_Inr [OF b'] True
    by (simp add: right_if_def or.assoc)
next
  case False
  with assms have "b' = b"
    by (auto simp: side_castling_def getitem_def not_moved_def split: option.splits if_splits)
  with False show ?thesis
    by (simp add: right_if_def)
qed

lemma reconstruct_board_rights:
  assumes "reconstruct_board pd = Inr b"
  shows "castling_rights b =
           right_if pd (py ''w_king'') (py ''w_rook2'') BB_H1
           OR right_if pd (py ''w_king'') (py ''w_rook1'') BB_A1
           OR right_if pd (py ''b_king'') (py ''b_rook2'') BB_H8
           OR right_if pd (py ''b_king'') (py ''b_rook1'') BB_A8"
proof -
  from assms obtain b0 b1 b2 where
    w: "side_castling pd (py ''w_king'') (py ''w_rook2'') BB_H1 (py ''w_rook1'') BB_A1
          (b0\<lparr>castling_rights := 0\<rparr>) = Inr b1"
    and bl: "side_castling pd (py ''b_king'') (py ''b_rook2'') BB_H8 (py ''b_rook1'') BB_A8 b1
          = Inr b2"
    and b: "b = b2\<lparr>turn := BLACK\<rparr>"
    by (auto simp: reconstruct_board_def split: sum.splits)
  show ?thesis
    using side_castling_Inr [OF w] side_castling_Inr [OF bl] b
    by (simp add: or.assoc)
qed

lemma rights_bits:
  "(w2 OR w1 OR b2 OR b1) AND BB_H1 \<noteq> 0 \<longleftrightarrow> w2 = BB_H1"
  "(w2 OR w1 OR b2 OR b1) AND BB_A1 \<noteq> 0 \<longleftrightarrow> w1 = BB_A1"
  "(w2 OR w1 OR b2 OR b1) AND BB_H8 \<noteq> 0 \<longleftrightarrow> b2 = BB_H8"
  "(w2 OR w1 OR b2 OR b1) AND BB_A8 \<noteq> 0 \<longleftrightarrow> b1 = BB_A8"
  if "w2 \<in> {0, BB_H1}" "w1 \<in> {0, BB_A1}" "b2 \<in> {0, BB_H8}" "b1 \<in> {0, BB_A8}"
  using that by (auto simp: BB_H1_def BB_A1_def BB_H8_def BB_A8_def)

lemma right_if_cases: "right_if pd king rook bb \<in> {0, bb}"
  by (simp add: right_if_def)

lemma right_if_eq: "bb \<noteq> 0 \<Longrightarrow> right_if pd king rook bb = bb \<longleftrightarrow> not_moved pd king \<and> not_moved pd rook"
  by (auto simp: right_if_def)

lemma BB_nonzero: "BB_H1 \<noteq> 0" "BB_A1 \<noteq> 0" "BB_H8 \<noteq> 0" "BB_A8 \<noteq> 0"
  by (simp_all add: BB_H1_def BB_A1_def BB_H8_def BB_A8_def)

lemma has_right_iff:
  assumes "reconstruct_board pd = Inr b"
  shows "has_castling_right b BB_H1 \<longleftrightarrow> not_moved pd (py ''w_king'') \<and> not_moved pd (py ''w_rook2'')"
    and "has_castling_right b BB_A1 \<longleftrightarrow> not_moved pd (py ''w_king'') \<and> not_moved pd (py ''w_rook1'')"
    and "has_castling_right b BB_H8 \<longleftrightarrow> not_moved pd (py ''b_king'') \<and> not_moved pd (py ''b_rook2'')"
    and "has_castling_right b BB_A8 \<longleftrightarrow> not_moved pd (py ''b_king'') \<and> not_moved pd (py ''b_rook1'')"
  unfolding has_castling_right_def reconstruct_board_rights [OF assms]
  by (simp_all only: rights_bits [OF right_if_cases right_if_cases right_if_cases right_if_cases]
      right_if_eq [OF BB_nonzero(1)] right_if_eq [OF BB_nonzero(2)]
      right_if_eq [OF BB_nonzero(3)] right_if_eq [OF BB_nonzero(4)])

lemma moved_not_unmoved: "has_moved pd key \<Longrightarrow> \<not> not_moved pd key"
  by (auto simp: has_moved_def not_moved_def split: option.splits)

text \<open>
  Claim C4. The built position has a castling right only if the record of that side's king
  and the record of the corresponding rook both have \<open>moved = false\<close>; and when the white
  king and the white king-side rook (\<open>w_rook2\<close>) have \<open>moved = false\<close> and the four other
  king and rook records have \<open>moved = true\<close>, the rights are exactly white king-side.
\<close>

theorem castling_only_if_unmoved:
  assumes "reconstruct_board pd = Inr b"
  shows "(\<forall>(king, rook, bb) \<in> set castling_table.
            has_castling_right b bb \<longrightarrow> not_moved pd king \<and> not_moved pd rook)
       \<and> (not_moved pd (py ''w_king'') \<and> not_moved pd (py ''w_rook2'')
            \<and> has_moved pd (py ''w_rook1'') \<and> has_moved pd (py ''b_king'')
            \<and> has_moved pd (py ''b_rook1'') \<and> has_moved pd (py ''b_rook2'')
          \<longrightarrow> castling_rights b = BB_H1
              \<and> has_castling_right b BB_H1 \<and> \<not> has_castling_right b BB_A1
              \<and> \<not> has_castling_right b BB_H8 \<and> \<not> has_castling_right b BB_A8)"
proof (intro conjI impI)
  show "\<forall>(king, rook, bb) \<in> set castling_table.
          has_castling_right b bb \<longrightarrow> not_moved pd king \<and> not_moved pd rook"
    by (simp add: castling_table_def has_right_iff [OF assms])
next
  assume h: "not_moved pd (py ''w_king'') \<and> not_moved pd (py ''w_rook2'')
            \<and> has_moved pd (py ''w_rook1'') \<and> has_moved pd (py ''b_king'')
            \<and> has_moved pd (py ''b_rook1'') \<and> has_moved pd (py ''b_rook2'')"
  then show "castling_rights b = BB_H1"
    by (simp add: reconstruct_board_rights [OF assms] right_if_def moved_not_unmoved)
  from h show "has_castling_right b BB_H1" "\<not> has_castling_right b BB_A1"
    "\<not> has_castling_right b BB_H8" "\<not> has_castling_right b BB_A8"
    by (simp_all add: has_right_iff [OF assms] moved_not_unmoved)
qed

lemma in_1_8: "1 \<le> (f::int) \<Longrightarrow> f \<le> 8 \<Longrightarrow> f = 1 \<or> f = 2 \<or> f = 3 \<or> f = 4 \<or> f = 5 \<or> f = 6 \<or> f = 7 \<or> f = 8"
  by auto

lemma SQUARE_NAMES_eval:
  "SQUARE_NAMES = 
    [[97, 49], [98, 49], [99, 49], [100, 49], [101, 49], [102, 49], [103, 49], [104, 49],
     [97, 50], [98, 50], [99, 50], [100, 50], [101, 50], [102, 50], [103, 50], [104, 50],
     [97, 51], [98, 51], [99, 51], [100, 51], [101, 51], [102, 51], [103, 51], [104, 51],
     [97, 52], [98, 52], [99, 52], [100, 52], [101, 52], [102, 52], [103, 52], [104, 52],
     [97, 53], [98, 53], [99, 53], [100, 53], [101, 53], [102, 53], [103, 53], [104, 53],
     [97, 54], [98, 54], [99, 54], [100, 54], [101, 54], [102, 54], [103, 54], [104, 54],
     [97, 55], [98, 55], [99, 55], [100, 55], [101, 55], [102, 55], [103, 55], [104, 55],
     [97, 56], [98, 56], [99, 56], [100, 56], [101, 56], [102, 56], [103, 56], [104, 56]]"
  by (simp add: SQUARE_NAMES_def FILE_NAMES_def RANK_NAMES_def)

lemma parse_square_pair:
  assumes "1 \<le> f" "f \<le> 8" "1 \<le> r" "r \<le> 8"
  shows "parse_square [96 + nat f, 48 + nat r] = Inr (nat (8 * (r - 1) + (f - 1)))"
  using in_1_8 [OF assms(3,4)] in_1_8 [OF assms(1,2)]
  by (elim disjE; simp add: parse_square_def SQUARE_NAMES_eval)

lemma placement_pair:
  assumes "1 \<le> f" "f \<le> 8" "1 \<le> r" "r \<le> 8"
    and "second (split_on 95 ty) = Inr n" and "map_of type_map n = Some k"
  shows "placement \<lparr>type = ty, position = pair_name f r, captured = c, moved = m\<rparr>
       = Inr (nat (8 * (r - 1) + (f - 1)),
              \<lparr>piece_type = k, color = startswith ty (py ''w_'')\<rparr>)"
  using assms(5,6)
  by (simp add: placement_def to_algebraic_pair [OF assms(1-4)] parse_square_pair [OF assms(1-4)]
      getitem_def WHITE_def BLACK_def)

lemma kind_names:
  "second (split_on 95 (py ''w_king'')) = Inr (py ''king'')"
  "second (split_on 95 (py ''b_king'')) = Inr (py ''king'')"
  "second (split_on 95 (py ''w_rook'')) = Inr (py ''rook'')"
  "second (split_on 95 (py ''b_rook'')) = Inr (py ''rook'')"
  "second (split_on 95 (py ''w_queen'')) = Inr (py ''queen'')"
  "second (split_on 95 (py ''b_queen'')) = Inr (py ''queen'')"
  by (simp_all add: py_def second_def)

lemma kinds:
  "map_of type_map (py ''king'') = Some KING"
  "map_of type_map (py ''rook'') = Some ROOK"
  "map_of type_map (py ''queen'') = Some QUEEN"
  by (simp_all add: type_map_def py_def)

subsection \<open>The placement loop\<close>

lemma place_pieces_append:
  "place_pieces (xs @ ys) b =
     (case place_pieces xs b of Inl e \<Rightarrow> Inl e | Inr b' \<Rightarrow> place_pieces ys b')"
  by (induction xs arbitrary: b) (auto split: sum.splits)

lemma place_pieces_succeeds_iff:
  "(\<exists>b'. place_pieces pd b = Inr b') \<longleftrightarrow>
   (\<forall>(key, pc) \<in> set pd. captured pc \<or> (\<exists>sp. placement pc = Inr sp))"
proof (induction pd arbitrary: b)
  case Nil
  show ?case by simp
next
  case (Cons entry pd)
  obtain key pc where entry: "entry = (key, pc)" by (cases entry)
  show ?case
  proof (cases "captured pc")
    case True
    then show ?thesis using Cons.IH [of b] by (simp add: entry)
  next
    case False
    show ?thesis
    proof (cases "placement pc")
      case (Inl e)
      with False show ?thesis by (simp add: entry)
    next
      case (Inr sp)
      obtain square p where "sp = (square, p)" by (cases sp)
      with False Inr show ?thesis
        using Cons.IH [of "set_piece_at b square p"] by (simp add: entry)
    qed
  qed
qed

text \<open>The squares a later part of the inventory does not write.\<close>

definition leaves_square :: "pieces \<Rightarrow> nat \<Rightarrow> bool" where
  "leaves_square pd square \<longleftrightarrow>
     (\<forall>(key, pc) \<in> set pd. captured pc \<or> (\<forall>p. placement pc \<noteq> Inr (square, p)))"

lemma place_pieces_leaves:
  "leaves_square pd square \<Longrightarrow> place_pieces pd b = Inr b' \<Longrightarrow>
   piece_at b' square = piece_at b square"
proof (induction pd arbitrary: b)
  case Nil
  then show ?case by simp
next
  case (Cons entry pd)
  obtain key pc where entry: "entry = (key, pc)" by (cases entry)
  from Cons.prems(1) have rest: "leaves_square pd square"
    and here: "captured pc \<or> (\<forall>p. placement pc \<noteq> Inr (square, p))"
    by (auto simp: leaves_square_def entry)
  show ?case
  proof (cases "captured pc")
    case True
    with Cons.prems(2) show ?thesis
      using Cons.IH [OF rest] by (simp add: entry)
  next
    case False
    with Cons.prems(2) obtain s p where pl: "placement pc = Inr (s, p)"
      and run: "place_pieces pd (set_piece_at b s p) = Inr b'"
      by (auto simp: entry split: sum.splits)
    from here False pl have "s \<noteq> square" by auto
    then show ?thesis
      using Cons.IH [OF rest run] by (simp add: set_piece_at_def)
  qed
qed

lemma place_pieces_last_wins:
  assumes "place_pieces (before @ (key, pc) # after) b = Inr b'"
    and "\<not> captured pc" and "placement pc = Inr (square, p)"
    and "leaves_square after square"
  shows "piece_at b' square = Some p"
proof -
  from assms(1) obtain b1 where "place_pieces before b = Inr b1"
    and "place_pieces ((key, pc) # after) b1 = Inr b'"
    by (auto simp: place_pieces_append split: sum.splits)
  with assms(2,3) have "place_pieces after (set_piece_at b1 square p) = Inr b'"
    by simp
  from place_pieces_leaves [OF assms(4) this] show ?thesis
    by (simp add: set_piece_at_def)
qed

subsection \<open>The castling look-ups\<close>

text \<open>The records \<open>reconstruct_board\<close> looks up by name, in the order it does.\<close>

definition side_keys :: "pieces \<Rightarrow> pystr \<Rightarrow> pystr \<Rightarrow> pystr \<Rightarrow> pystr list" where
  "side_keys pd king rook2 rook1 = king # (if not_moved pd king then [rook2, rook1] else [])"

definition looked_up :: "pieces \<Rightarrow> pystr list" where
  "looked_up pd =
     side_keys pd (py ''w_king'') (py ''w_rook2'') (py ''w_rook1'')
     @ side_keys pd (py ''b_king'') (py ''b_rook2'') (py ''b_rook1'')"

definition missing :: "pieces \<Rightarrow> pystr \<Rightarrow> bool" where
  "missing pd key \<longleftrightarrow> map_of pd key = None"

lemma find_app:
  "find P (xs @ ys) = (case find P xs of None \<Rightarrow> find P ys | Some x \<Rightarrow> Some x)"
  by (induction xs) auto

lemma side_castling_result:
  "side_castling pd king rook2 bb_h rook1 bb_a b =
     (case find (missing pd) (side_keys pd king rook2 rook1) of
        Some key \<Rightarrow> Inl (KeyError key)
      | None \<Rightarrow> Inr (b\<lparr>castling_rights :=
           castling_rights b OR right_if pd king rook2 bb_h OR right_if pd king rook1 bb_a\<rparr>))"
  by (auto simp: side_castling_def grant_unless_moved_def getitem_def side_keys_def missing_def
      right_if_def not_moved_def or.assoc split: option.splits)

lemma reconstruct_board_result:
  assumes "place_pieces pd empty_board = Inr b0"
  shows "reconstruct_board pd =
     (case find (missing pd) (looked_up pd) of
        Some key \<Rightarrow> Inl (KeyError key)
      | None \<Rightarrow> Inr (b0\<lparr>castling_rights :=
            right_if pd (py ''w_king'') (py ''w_rook2'') BB_H1
            OR right_if pd (py ''w_king'') (py ''w_rook1'') BB_A1
            OR right_if pd (py ''b_king'') (py ''b_rook2'') BB_H8
            OR right_if pd (py ''b_king'') (py ''b_rook1'') BB_A8,
          turn := BLACK\<rparr>))"
  by (simp add: reconstruct_board_def assms side_castling_result looked_up_def find_app
      or.assoc split: option.splits)

subsection \<open>Inventories used as examples\<close>

definition item :: "string \<Rightarrow> string \<Rightarrow> int \<Rightarrow> int \<Rightarrow> bool \<Rightarrow> bool \<Rightarrow> pystr \<times> piece_record" where
  "item key ty f r cap mv =
     (py key, \<lparr>type = py ty, position = pair_name f r, captured = cap, moved = mv\<rparr>)"

text \<open>Kings and rooks on their home squares; only the white king and the white king-side
  rook have not moved.\<close>

definition kingside_inventory :: pieces where
  "kingside_inventory =
     [item ''w_king'' ''w_king'' 5 1 False False,
      item ''w_rook1'' ''w_rook'' 1 1 False True,
      item ''w_rook2'' ''w_rook'' 8 1 False False,
      item ''b_king'' ''b_king'' 5 8 False True,
      item ''b_rook1'' ''b_rook'' 1 8 False True,
      item ''b_rook2'' ''b_rook'' 8 8 False True]"

text \<open>The same, with the white king-side rook captured.\<close>

definition captured_rook_inventory :: pieces where
  "captured_rook_inventory =
     [item ''w_king'' ''w_king'' 5 1 False False,
      item ''w_rook1'' ''w_rook'' 1 1 False True,
      item ''w_rook2'' ''w_rook'' 8 1 True False,
      item ''b_king'' ''b_king'' 5 8 False True,
      item ''b_rook1'' ''b_rook'' 1 8 False True,
      item ''b_rook2'' ''b_rook'' 8 8 False True]"

text \<open>Two kings that have moved, and no rook record.\<close>

definition bare_kings_inventory :: pieces where
  "bare_kings_inventory =
     [item ''w_king'' ''w_king'' 5 2 False True,
      item ''b_king'' ''b_king'' 5 7 False True]"

text \<open>No record named \<open>w_king\<close>.\<close>

definition no_white_king_inventory :: pieces where
  "no_white_king_inventory =
     [item ''b_king'' ''b_king'' 5 8 False True,
      item ''w_queen'' ''w_queen'' 4 1 False False]"

text \<open>The white queen and the rook \<open>w_rook1\<close> both on \<open>1_1\<close>, neither captured.\<close>

definition two_on_a1_inventory :: pieces where
  "two_on_a1_inventory =
     [item ''w_king'' ''w_king'' 5 1 False True,
      item ''w_rook1'' ''w_rook'' 1 1 False True,
      item ''w_queen'' ''w_queen'' 1 1 False True,
      item ''b_king'' ''b_king'' 5 8 False True]"

text \<open>What a build shows of its result.\<close>

definition built_rights :: "pieces \<Rightarrow> error + int" where
  "built_rights pd = map_sum id castling_rights (reconstruct_board pd)"

definition built_piece_at :: "pieces \<Rightarrow> nat \<Rightarrow> error + piece option" where
  "built_piece_at pd square = map_sum id (\<lambda>b. piece_at b square) (reconstruct_board pd)"

lemma item_placement:
  assumes "1 \<le> f" "f \<le> 8" "1 \<le> r" "r \<le> 8"
    and "second (split_on 95 (py ty)) = Inr n" and "map_of type_map n = Some k"
  shows "placement (snd (item key ty f r c m))
       = Inr (nat (8 * (r - 1) + (f - 1)),
              \<lparr>piece_type = k, color = startswith (py ty) (py ''w_'')\<rparr>)"
  unfolding item_def snd_conv by (rule placement_pair [OF assms])

lemmas example_placements =
  item_placement [OF _ _ _ _ kind_names(1) kinds(1)]
  item_placement [OF _ _ _ _ kind_names(2) kinds(1)]
  item_placement [OF _ _ _ _ kind_names(3) kinds(2)]
  item_placement [OF _ _ _ _ kind_names(4) kinds(2)]
  item_placement [OF _ _ _ _ kind_names(5) kinds(3)]

lemma item_fields:
  "fst (item key ty f r c m) = py key"
  "captured (snd (item key ty f r c m)) = c"
  "moved (snd (item key ty f r c m)) = m"
  by (simp_all add: item_def)

lemma place_pieces_Cons:
  "place_pieces (entry # rest) b =
     (if \<not> captured (snd entry) then
        (case placement (snd entry) of
           Inl e \<Rightarrow> Inl e
         | Inr (square, p) \<Rightarrow> place_pieces rest (set_piece_at b square p))
      else place_pieces rest b)"
  by (cases entry) simp

lemma map_of_Cons_fst:
  "map_of (entry # rest) key = (if fst entry = key then Some (snd entry) else map_of rest key)"
  by (cases entry) auto

lemma py_keys [simp]:
  "py ''w_king'' = [119, 95, 107, 105, 110, 103]"
  "py ''b_king'' = [98, 95, 107, 105, 110, 103]"
  "py ''w_rook1'' = [119, 95, 114, 111, 111, 107, 49]"
  "py ''w_rook2'' = [119, 95, 114, 111, 111, 107, 50]"
  "py ''b_rook1'' = [98, 95, 114, 111, 111, 107, 49]"
  "py ''b_rook2'' = [98, 95, 114, 111, 111, 107, 50]"
  "py ''w_queen'' = [119, 95, 113, 117, 101, 101, 110]"
  by (simp_all add: py_def)

lemma kingside_inventory_places: "\<exists>b0. place_pieces kingside_inventory empty_board = Inr b0"
  by (simp add: kingside_inventory_def place_pieces_Cons item_fields example_placements)

lemma kingside_inventory_lookups:
  "not_moved kingside_inventory (py ''w_king'')" "not_moved kingside_inventory (py ''w_rook2'')"
  "has_moved kingside_inventory (py ''w_rook1'')" "has_moved kingside_inventory (py ''b_king'')"
  "has_moved kingside_inventory (py ''b_rook1'')" "has_moved kingside_inventory (py ''b_rook2'')"
  by (simp_all add: kingside_inventory_def not_moved_def has_moved_def map_of_Cons_fst item_fields
      del: map_of.simps(2))

lemma kingside_inventory_builds: "\<exists>b. reconstruct_board kingside_inventory = Inr b"
proof -
  obtain b0 where "place_pieces kingside_inventory empty_board = Inr b0"
    using kingside_inventory_places by blast
  from reconstruct_board_result [OF this] show ?thesis
    using kingside_inventory_lookups
    by (simp add: looked_up_def side_keys_def missing_def moved_not_unmoved
        not_moved_def has_moved_def split: option.splits)
qed

theorem castling_only_if_unmoved_witness:
  "built_rights kingside_inventory = Inr BB_H1"
proof -
  obtain b where b: "reconstruct_board kingside_inventory = Inr b"
    using kingside_inventory_builds by blast
  from castling_only_if_unmoved [OF b] kingside_inventory_lookups
  have "castling_rights b = BB_H1" by simp
  with b show ?thesis by (simp add: built_rights_def)
qed

text \<open>
  Claim C10. The castling rights of the built position depend only on the \<open>moved\<close> fields of
  the six records \<open>w_king\<close>, \<open>w_rook1\<close>, \<open>w_rook2\<close>, \<open>b_king\<close>, \<open>b_rook1\<close>, \<open>b_rook2\<close>: two
  inventories that agree on them give positions with the same rights; and a rook record with
  \<open>captured = true\<close> and \<open>moved = false\<close> still gives its right when the king has not moved.
\<close>

theorem castling_depends_on_moved_only:
  assumes "reconstruct_board pd1 = Inr b1" and "reconstruct_board pd2 = Inr b2"
  shows "((\<forall>key \<in> set castling_keys.
             map_option moved (map_of pd1 key) = map_option moved (map_of pd2 key))
          \<longrightarrow> castling_rights b1 = castling_rights b2)
       \<and> (\<forall>(king, rook, bb) \<in> set castling_table.
             not_moved pd1 king \<and> (\<exists>r. map_of pd1 rook = Some r \<and> captured r \<and> \<not> moved r)
             \<longrightarrow> has_castling_right b1 bb)"
proof (intro conjI impI)
  assume agree: "\<forall>key \<in> set castling_keys.
      map_option moved (map_of pd1 key) = map_option moved (map_of pd2 key)"
  have same: "not_moved pd1 key = not_moved pd2 key" if "key \<in> set castling_keys" for key
    using agree that by (auto simp: not_moved_def split: option.splits)
  have "right_if pd1 king rook bb = right_if pd2 king rook bb"
    if "king \<in> set castling_keys" "rook \<in> set castling_keys" for king rook bb
    using same [OF that(1)] same [OF that(2)] by (simp add: right_if_def)
  then show "castling_rights b1 = castling_rights b2"
    unfolding reconstruct_board_rights [OF assms(1)] reconstruct_board_rights [OF assms(2)]
    by (simp add: castling_keys_def)
next
  show "\<forall>(king, rook, bb) \<in> set castling_table.
          not_moved pd1 king \<and> (\<exists>r. map_of pd1 rook = Some r \<and> captured r \<and> \<not> moved r)
          \<longrightarrow> has_castling_right b1 bb"
    by (auto simp: castling_table_def has_right_iff [OF assms(1)] not_moved_def)
qed

lemma captured_rook_inventory_places:
  "\<exists>b0. place_pieces captured_rook_inventory empty_board = Inr b0"
  by (simp add: captured_rook_inventory_def place_pieces_Cons item_fields example_placements)

lemma captured_rook_inventory_lookups:
  "not_moved captured_rook_inventory (py ''w_king'')"
  "not_moved captured_rook_inventory (py ''w_rook2'')"
  "has_moved captured_rook_inventory (py ''w_rook1'')"
  "has_moved captured_rook_inventory (py ''b_king'')"
  "map_of captured_rook_inventory (py ''w_rook2'')
     = Some (snd (item ''w_rook2'' ''w_rook'' 8 1 True False))"
  by (simp_all add: captured_rook_inventory_def not_moved_def has_moved_def map_of_Cons_fst
      item_fields del: map_of.simps(2))

lemma captured_rook_inventory_builds: "\<exists>b. reconstruct_board captured_rook_inventory = Inr b"
proof -
  obtain b0 where "place_pieces captured_rook_inventory empty_board = Inr b0"
    using captured_rook_inventory_places by blast
  from reconstruct_board_result [OF this] show ?thesis
    using captured_rook_inventory_lookups
    by (simp add: looked_up_def side_keys_def missing_def moved_not_unmoved
        not_moved_def has_moved_def split: option.splits)
qed

lemma inventories_agree:
  "\<forall>key \<in> set castling_keys.
     map_option moved (map_of captured_rook_inventory key)
     = map_option moved (map_of kingside_inventory key)"
  by (simp add: castling_keys_def captured_rook_inventory_def kingside_inventory_def
      map_of_Cons_fst item_fields del: map_of.simps(2))

theorem castling_depends_on_moved_only_witness:
  "built_rights captured_rook_inventory = built_rights kingside_inventory
   \<and> built_rights captured_rook_inventory = Inr BB_H1
   \<and> captured (snd (item ''w_rook2'' ''w_rook'' 8 1 True False))
   \<and> map_of captured_rook_inventory (py ''w_rook2'')
       = Some (snd (item ''w_rook2'' ''w_rook'' 8 1 True False))"
proof -
  obtain b1 where b1: "reconstruct_board captured_rook_inventory = Inr b1"
    using captured_rook_inventory_builds by blast
  obtain b2 where b2: "reconstruct_board kingside_inventory = Inr b2"
    using kingside_inventory_builds by blast
  have same: "castling_rights b1 = castling_rights b2"
    using castling_depends_on_moved_only [OF b1 b2] inventories_agree by blast
  have "castling_rights b2 = BB_H1"
    using reconstruct_board_rights [OF b2] kingside_inventory_lookups
    by (simp add: right_if_def moved_not_unmoved)
  with same b1 b2 show ?thesis
    using captured_rook_inventory_lookups(5) by (simp add: built_rights_def item_fields)
qed

text \<open>
  Claim C5, as the code has it. A record that \<open>reconstruct_board\<close> looks up by name and that
  is missing makes the build fail with \<open>KeyError\<close>: the first missing one among \<open>w_king\<close>,
  then \<open>w_rook2\<close> and \<open>w_rook1\<close> when the white king has \<open>moved = false\<close>, then \<open>b_king\<close>,
  then \<open>b_rook2\<close> and \<open>b_rook1\<close> when the black king has \<open>moved = false\<close>. A position is
  built when none of them is missing; the rook records of a side whose king has moved are
  not looked up, so they may be missing, and that side gets no right.
\<close>

theorem missing_record_raises_KeyError:
  assumes "place_pieces pd empty_board = Inr b0"
  shows "(\<forall>key. find (missing pd) (looked_up pd) = Some key
            \<longrightarrow> reconstruct_board pd = Inl (KeyError key))
       \<and> (find (missing pd) (looked_up pd) = None \<longrightarrow> (\<exists>b. reconstruct_board pd = Inr b))
       \<and> (has_moved pd (py ''w_king'') \<and> has_moved pd (py ''b_king'')
            \<longrightarrow> (\<exists>b. reconstruct_board pd = Inr b \<and> castling_rights b = 0))"
proof (intro conjI impI allI)
  fix key
  assume "find (missing pd) (looked_up pd) = Some key"
  then show "reconstruct_board pd = Inl (KeyError key)"
    by (simp add: reconstruct_board_result [OF assms])
next
  assume "find (missing pd) (looked_up pd) = None"
  then show "\<exists>b. reconstruct_board pd = Inr b"
    by (simp add: reconstruct_board_result [OF assms])
next
  assume kings: "has_moved pd (py ''w_king'') \<and> has_moved pd (py ''b_king'')"
  then have "find (missing pd) (looked_up pd) = None"
    by (auto simp: looked_up_def side_keys_def missing_def has_moved_def not_moved_def
        split: option.splits)
  with kings show "\<exists>b. reconstruct_board pd = Inr b \<and> castling_rights b = 0"
    by (simp add: reconstruct_board_result [OF assms] right_if_def moved_not_unmoved)
qed

lemma bare_kings_inventory_places:
  "\<exists>b0. place_pieces bare_kings_inventory empty_board = Inr b0"
  by (simp add: bare_kings_inventory_def place_pieces_Cons item_fields example_placements)

lemma bare_kings_inventory_lookups:
  "has_moved bare_kings_inventory (py ''w_king'')" "has_moved bare_kings_inventory (py ''b_king'')"
  "missing bare_kings_inventory (py ''w_rook1'')" "missing bare_kings_inventory (py ''b_rook2'')"
  by (simp_all add: bare_kings_inventory_def has_moved_def missing_def map_of_Cons_fst
      item_fields del: map_of.simps(2))

theorem missing_record_raises_KeyError_witness:
  "missing bare_kings_inventory (py ''w_rook1'') \<and> built_rights bare_kings_inventory = Inr 0"
proof -
  obtain b0 where "place_pieces bare_kings_inventory empty_board = Inr b0"
    using bare_kings_inventory_places by blast
  from missing_record_raises_KeyError [OF this] bare_kings_inventory_lookups
  obtain b where "reconstruct_board bare_kings_inventory = Inr b" and "castling_rights b = 0"
    by blast
  then show ?thesis
    using bare_kings_inventory_lookups by (simp add: built_rights_def)
qed

lemma no_white_king_inventory_places:
  "\<exists>b0. place_pieces no_white_king_inventory empty_board = Inr b0"
  by (simp add: no_white_king_inventory_def place_pieces_Cons item_fields example_placements)

theorem missing_king_counterexample:
  "missing no_white_king_inventory (py ''w_king'')
   \<and> reconstruct_board no_white_king_inventory = Inl (KeyError (py ''w_king''))"
proof -
  have gone: "missing no_white_king_inventory (py ''w_king'')"
    by (simp add: no_white_king_inventory_def missing_def map_of_Cons_fst item_fields
        del: map_of.simps(2))
  obtain b0 where "place_pieces no_white_king_inventory empty_board = Inr b0"
    using no_white_king_inventory_places by blast
  from reconstruct_board_result [OF this] gone show ?thesis
    by (simp add: looked_up_def side_keys_def)
qed

lemma reconstruct_board_pieces:
  assumes "reconstruct_board pd = Inr b"
  shows "\<exists>b0. place_pieces pd empty_board = Inr b0 \<and> piece_at b = piece_at b0"
proof -
  from assms obtain b0 b1 b2 where place: "place_pieces pd empty_board = Inr b0"
    and w: "side_castling pd (py ''w_king'') (py ''w_rook2'') BB_H1 (py ''w_rook1'') BB_A1
          (b0\<lparr>castling_rights := 0\<rparr>) = Inr b1"
    and bl: "side_castling pd (py ''b_king'') (py ''b_rook2'') BB_H8 (py ''b_rook1'') BB_A8 b1
          = Inr b2"
    and b: "b = b2\<lparr>turn := BLACK\<rparr>"
    by (auto simp: reconstruct_board_def split: sum.splits)
  have "piece_at b = piece_at b0"
    using side_castling_Inr [OF w] side_castling_Inr [OF bl] b by simp
  with place show ?thesis by blast
qed

text \<open>
  Claim C6, as the code has it. Two records that are not captured and whose positions are
  the same square raise no error of their own: the records are placed in iteration order,
  each placement replacing the occupant of its square, so the built position holds on that
  square the piece of the last such record; and the placement loop fails only when some
  record, taken alone, cannot be placed.
\<close>

theorem duplicate_occupant_overwritten:
  assumes "pd = before @ (key1, pc1) # between @ (key2, pc2) # after"
    and "\<not> captured pc1" and "\<not> captured pc2"
    and "placement pc1 = Inr (square, p1)" and "placement pc2 = Inr (square, p2)"
    and "leaves_square after square"
  shows "(\<forall>b. reconstruct_board pd = Inr b \<longrightarrow> piece_at b square = Some p2)
       \<and> ((\<exists>b0. place_pieces pd empty_board = Inr b0) \<longleftrightarrow>
            (\<forall>(key, pc) \<in> set pd. captured pc \<or> (\<exists>sp. placement pc = Inr sp)))"
proof (intro conjI allI impI)
  fix b
  assume "reconstruct_board pd = Inr b"
  then obtain b0 where place: "place_pieces pd empty_board = Inr b0"
    and same: "piece_at b = piece_at b0"
    using reconstruct_board_pieces by blast
  have "pd = (before @ (key1, pc1) # between) @ (key2, pc2) # after"
    by (simp add: assms(1))
  with place have "piece_at b0 square = Some p2"
    using place_pieces_last_wins [OF _ assms(3,5,6)] by metis
  with same show "piece_at b square = Some p2" by simp
next
  show "(\<exists>b0. place_pieces pd empty_board = Inr b0) \<longleftrightarrow>
        (\<forall>(key, pc) \<in> set pd. captured pc \<or> (\<exists>sp. placement pc = Inr sp))"
    by (rule place_pieces_succeeds_iff)
qed

lemma two_on_a1_inventory_places:
  "\<exists>b0. place_pieces two_on_a1_inventory empty_board = Inr b0"
  by (simp add: two_on_a1_inventory_def place_pieces_Cons item_fields example_placements)

lemma two_on_a1_inventory_builds: "\<exists>b. reconstruct_board two_on_a1_inventory = Inr b"
proof -
  obtain b0 where "place_pieces two_on_a1_inventory empty_board = Inr b0"
    using two_on_a1_inventory_places by blast
  from reconstruct_board_result [OF this] show ?thesis
    by (simp add: looked_up_def side_keys_def missing_def not_moved_def two_on_a1_inventory_def
        map_of_Cons_fst item_fields del: map_of.simps(2))
qed

lemma two_on_a1_placements:
  "placement (snd (item ''w_rook1'' ''w_rook'' 1 1 False True))
     = Inr (0, \<lparr>piece_type = ROOK, color = WHITE\<rparr>)"
  "placement (snd (item ''w_queen'' ''w_queen'' 1 1 False True))
     = Inr (0, \<lparr>piece_type = QUEEN, color = WHITE\<rparr>)"
  "leaves_square [item ''b_king'' ''b_king'' 5 8 False True] 0"
  by (simp_all add: example_placements WHITE_def leaves_square_def startswith_def py_def
      case_prod_beta)

theorem duplicate_occupant_counterexample:
  "built_piece_at two_on_a1_inventory 0 = Inr (Some \<lparr>piece_type = QUEEN, color = WHITE\<rparr>)"
proof -
  obtain b where b: "reconstruct_board two_on_a1_inventory = Inr b"
    using two_on_a1_inventory_builds by blast
  then obtain b0 where place: "place_pieces two_on_a1_inventory empty_board = Inr b0"
    and same: "piece_at b = piece_at b0"
    using reconstruct_board_pieces by blast
  have "place_pieces
          ([item ''w_king'' ''w_king'' 5 1 False True, item ''w_rook1'' ''w_rook'' 1 1 False True]
           @ (py ''w_queen'', snd (item ''w_queen'' ''w_queen'' 1 1 False True))
           # [item ''b_king'' ''b_king'' 5 8 False True]) empty_board = Inr b0"
    using place by (simp add: two_on_a1_inventory_def item_def)
  from place_pieces_last_wins [OF this _ two_on_a1_placements(2,3)]
  have "piece_at b0 0 = Some \<lparr>piece_type = QUEEN, color = WHITE\<rparr>"
    by (simp add: item_fields)
  with same b show ?thesis
    by (simp add: built_piece_at_def)
qed

theorem duplicate_occupant_overwritten_witness:
  "placement (snd (item ''w_rook1'' ''w_rook'' 1 1 False True))
     = Inr (0, \<lparr>piece_type = ROOK, color = WHITE\<rparr>)
   \<and> placement (snd (item ''w_queen'' ''w_queen'' 1 1 False True))
     = Inr (0, \<lparr>piece_type = QUEEN, color = WHITE\<rparr>)
   \<and> (\<exists>b. reconstruct_board two_on_a1_inventory = Inr b
          \<and> piece_at b 0 = Some \<lparr>piece_type = QUEEN, color = WHITE\<rparr>)"
proof -
  have split: "two_on_a1_inventory =
      [item ''w_king'' ''w_king'' 5 1 False True]
      @ (py ''w_rook1'', snd (item ''w_rook1'' ''w_rook'' 1 1 False True)) # []
      @ (py ''w_queen'', snd (item ''w_queen'' ''w_queen'' 1 1 False True))
      # [item ''b_king'' ''b_king'' 5 8 False True]"
    by (simp add: two_on_a1_inventory_def item_def)
  have free: "\<not> captured (snd (item ''w_rook1'' ''w_rook'' 1 1 False True))"
    "\<not> captured (snd (item ''w_queen'' ''w_queen'' 1 1 False True))"
    by (simp_all add: item_fields)
  from duplicate_occupant_overwritten [OF split free two_on_a1_placements]
  show ?thesis
    using two_on_a1_inventory_builds two_on_a1_placements(1,2) by blast
qed


section \<open>Scores\<close>

text \<open>
  A score is an integer from \<open>evaluate_board\<close> or one of \<open>-math.inf\<close> and \<open>math.inf\<close>;
  Python compares the two kinds of number exactly.
\<close>

datatype score = NegInf | Fin int | PosInf

instantiation score :: linorder
begin

fun less_eq_score :: "score \<Rightarrow> score \<Rightarrow> bool" where
  "less_eq_score NegInf y = True"
| "less_eq_score (Fin a) NegInf = False"
| "less_eq_score (Fin a) (Fin b) = (a \<le> b)"
| "less_eq_score (Fin a) PosInf = True"
| "less_eq_score PosInf PosInf = True"
| "less_eq_score PosInf y = False"

definition less_score :: "score \<Rightarrow> score \<Rightarrow> bool" where
  "less_score x y \<longleftrightarrow> x \<le> y \<and> \<not> y \<le> x"

instance
proof
  fix x y z :: score
  show "x < y \<longleftrightarrow> x \<le> y \<and> \<not> y \<le> x"
    by (simp add: less_score_def)
  show "x \<le> x"
    by (cases x) simp_all
  show "x \<le> y \<Longrightarrow> y \<le> z \<Longrightarrow> x \<le> z"
    by (cases x; cases y; cases z) simp_all
  show "x \<le> y \<Longrightarrow> y \<le> x \<Longrightarrow> x = y"
    by (cases x; cases y) simp_all
  show "x \<le> y \<or> y \<le> x"
    by (cases x; cases y) auto
qed

end

section \<open>The rules engine\<close>

text \<open>
  A move of the \<open>chess\<close> library. Its truth value, which \<open>get_move\<close> tests, is false only
  for the null move.
\<close>

record move =
  from_square :: nat
  to_square :: nat
  promotion :: "piece_type option"
  drop :: "piece_type option"

definition move_bool :: "move \<Rightarrow> bool" where
  "move_bool m \<longleftrightarrow>
     from_square m \<noteq> 0 \<or> to_square m \<noteq> 0 \<or> promotion m \<noteq> None \<or> drop m \<noteq> None"

text \<open>
  The operations of \<open>chess.Board\<close> that the search calls are taken as a parameter: the legal
  moves in the order the library lists them, applying a move, undoing the last applied
  move, and the two status queries. \<open>push\<close> and \<open>pop\<close> change the board in place; here they
  return the changed board, or the exception they raise, in which case the board stays as
  it was.
\<close>

record engine =
  legal_moves :: "board \<Rightarrow> move list"
  push :: "board \<Rightarrow> move \<Rightarrow> error + board"
  pop :: "board \<Rightarrow> error + board"
  is_checkmate :: "board \<Rightarrow> bool"
  is_game_over :: "board \<Rightarrow> bool"

section \<open>Evaluation\<close>

definition SQUARES :: "nat list" where
  "SQUARES = [0..<64]"

fun "values" :: "piece_type \<Rightarrow> int" where
  "values PAWN = 1"
| "values KNIGHT = 3"
| "values BISHOP = 3"
| "values ROOK = 5"
| "values QUEEN = 9"
| "values KING = 0"

definition evaluate_board :: "engine \<Rightarrow> board \<Rightarrow> int" where
  "evaluate_board E b =
     (if is_checkmate E b then (if turn b then - 9999 else 9999)
      else fold (\<lambda>square evaluation.
                   case piece_at b square of
                     None \<Rightarrow> evaluation
                   | Some p \<Rightarrow>
                       (let val = values (piece_type p) in
                        if color p = WHITE then evaluation - val else evaluation + val))
             SQUARES 0)"

section \<open>Minimax with alpha-beta pruning\<close>

text \<open>
  The search works on one board object, which every \<open>push\<close> and \<open>pop\<close> changes. A call
  therefore returns, besides its value or the exception it raised, the board as it leaves
  it.
\<close>

type_synonym 'a outcome = "(error + 'a) \<times> board"

text \<open>
  The loop of the maximizing branch over the remaining moves, with the running \<open>max_eval\<close>
  and \<open>alpha\<close>. \<open>deeper\<close> is the recursive call \<open>minimax(board, depth - 1, alpha, beta, False)\<close>.
  An exception from \<open>push\<close>, from the recursive call or from \<open>pop\<close> ends the loop at once.
\<close>

fun max_loop ::
  "engine \<Rightarrow> (score \<Rightarrow> score \<Rightarrow> board \<Rightarrow> score outcome) \<Rightarrow> move list
   \<Rightarrow> score \<Rightarrow> score \<Rightarrow> score \<Rightarrow> board \<Rightarrow> score outcome" where
  "max_loop E deeper [] max_eval alpha beta b = (Inr max_eval, b)"
| "max_loop E deeper (m # moves) max_eval alpha beta b =
     (case push E b m of
        Inl e \<Rightarrow> (Inl e, b)
      | Inr b1 \<Rightarrow>
          (case deeper alpha beta b1 of
             (Inl e, b2) \<Rightarrow> (Inl e, b2)
           | (Inr eval, b2) \<Rightarrow>
               (case pop E b2 of
                  Inl e \<Rightarrow> (Inl e, b2)
                | Inr b3 \<Rightarrow>
                    (let max_eval' = max max_eval eval; alpha' = max alpha eval in
                     if beta \<le> alpha' then (Inr max_eval', b3)
                     else max_loop E deeper moves max_eval' alpha' beta b3))))"

fun min_loop ::
  "engine \<Rightarrow> (score \<Rightarrow> score \<Rightarrow> board \<Rightarrow> score outcome) \<Rightarrow> move list
   \<Rightarrow> score \<Rightarrow> score \<Rightarrow> score \<Rightarrow> board \<Rightarrow> score outcome" where
  "min_loop E deeper [] min_eval alpha beta b = (Inr min_eval, b)"
| "min_loop E deeper (m # moves) min_eval alpha beta b =
     (case push E b m of
        Inl e \<Rightarrow> (Inl e, b)
      | Inr b1 \<Rightarrow>
          (case deeper alpha beta b1 of
             (Inl e, b2) \<Rightarrow> (Inl e, b2)
           | (Inr eval, b2) \<Rightarrow>
               (case pop E b2 of
                  Inl e \<Rightarrow> (Inl e, b2)
                | Inr b3 \<Rightarrow>
                    (let min_eval' = min min_eval eval; beta' = min beta eval in
                     if beta' \<le> alpha then (Inr min_eval', b3)
                     else min_loop E deeper moves min_eval' alpha beta' b3))))"

text \<open>
  \<open>depth\<close> counts the plies left; the code calls \<open>minimax\<close> with depth 2 and each call
  passes \<open>depth - 1\<close> on until it is 0, so it is a natural number.
\<close>

primrec minimax ::
  "engine \<Rightarrow> nat \<Rightarrow> score \<Rightarrow> score \<Rightarrow> bool \<Rightarrow> board \<Rightarrow> score outcome" where
  "minimax E 0 alpha beta maximizing b = (Inr (Fin (evaluate_board E b)), b)"
| "minimax E (Suc depth) alpha beta maximizing b =
     (if is_game_over E b then (Inr (Fin (evaluate_board E b)), b)
      else
        (let moves = legal_moves E b in
         if maximizing then
           max_loop E (\<lambda>alpha beta b. minimax E depth alpha beta False b) moves NegInf alpha beta b
         else
           min_loop E (\<lambda>alpha beta b. minimax E depth alpha beta True b) moves PosInf alpha beta b))"

section \<open>The request handler\<close>

text \<open>
  The root loop of \<open>get_move\<close> over the legal moves of the built position, with the running
  \<open>best_move\<close> and \<open>best_value\<close>. The moves are those the position has when the loop starts;
  the library generates them while the loop runs, which gives the same moves as long as
  each round leaves the board as it found it.
\<close>

fun root_loop ::
  "engine \<Rightarrow> move list \<Rightarrow> move option \<Rightarrow> score \<Rightarrow> board \<Rightarrow> move option outcome" where
  "root_loop E [] best_move best_value b = (Inr best_move, b)"
| "root_loop E (m # moves) best_move best_value b =
     (case push E b m of
        Inl e \<Rightarrow> (Inl e, b)
      | Inr b1 \<Rightarrow>
          (case minimax E 2 NegInf PosInf False b1 of
             (Inl e, b2) \<Rightarrow> (Inl e, b2)
           | (Inr val, b2) \<Rightarrow>
               (case pop E b2 of
                  Inl e \<Rightarrow> (Inl e, b2)
                | Inr b3 \<Rightarrow>
                    if val > best_value then root_loop E moves (Some m) val b3
                    else root_loop E moves best_move best_value b3)))"

text \<open>\<open>chess.square_name(square)\<close> is \<open>SQUARE_NAMES[square]\<close>.\<close>

definition square_name :: "nat \<Rightarrow> error + pystr" where
  "square_name square =
     (if square < length SQUARE_NAMES then Inr (SQUARE_NAMES ! square) else Inl IndexError)"

text \<open>
  The JSON answers: the move as \<open>from\<close> and \<open>to\<close>, the text \<open>Game Over or No Move\<close>, or the
  text of a caught exception, all three under the handler's single \<open>except\<close>.
\<close>

datatype response = Move_found pystr pystr | Game_over_or_no_move | Failed error

definition answer :: "move option \<Rightarrow> response" where
  "answer best_move =
     (case best_move of
        None \<Rightarrow> Game_over_or_no_move
      | Some m \<Rightarrow>
          if move_bool m then
            (case square_name (from_square m) of
               Inl e \<Rightarrow> Failed e
             | Inr from_name \<Rightarrow>
                 (case map_from_algebraic from_name of
                    Inl e \<Rightarrow> Failed e
                  | Inr src \<Rightarrow>
                      (case square_name (to_square m) of
                         Inl e \<Rightarrow> Failed e
                       | Inr to_name \<Rightarrow>
                           (case map_from_algebraic to_name of
                              Inl e \<Rightarrow> Failed e
                            | Inr dst \<Rightarrow> Move_found src dst))))
          else Game_over_or_no_move)"

text \<open>The search from a built position: the part of \<open>get_move\<close> after \<open>reconstruct_board\<close>.\<close>

definition search :: "engine \<Rightarrow> board \<Rightarrow> response" where
  "search E b =
     (case root_loop E (legal_moves E b) None NegInf b of
        (Inl e, b') \<Rightarrow> Failed e
      | (Inr best_move, b') \<Rightarrow> answer best_move)"

definition get_move :: "engine \<Rightarrow> pieces \<Rightarrow> response" where
  "get_move E pieces_data =
     (case reconstruct_board pieces_data of
        Inl e \<Rightarrow> Failed e
      | Inr b \<Rightarrow> search E b)"

section \<open>Material\<close>

text \<open>The material sum of the specification: over the occupied squares, the point value
  of the piece, added for a black piece and subtracted for a white one.\<close>

definition point_value :: "piece_type \<Rightarrow> int" where
  "point_value k =
     (case k of PAWN \<Rightarrow> 1 | KNIGHT \<Rightarrow> 3 | BISHOP \<Rightarrow> 3 | ROOK \<Rightarrow> 5 | QUEEN \<Rightarrow> 9 | KING \<Rightarrow> 0)"

definition occupied :: "board \<Rightarrow> nat set" where
  "occupied b = {square. square < 64 \<and> piece_at b square \<noteq> None}"

definition signed_value :: "piece \<Rightarrow> int" where
  "signed_value p = (if color p = BLACK then point_value (piece_type p) else - point_value (piece_type p))"

definition material :: "board \<Rightarrow> int" where
  "material b = (\<Sum>square \<in> occupied b. signed_value (the (piece_at b square)))"

text \<open>The number of pieces of one colour and kind on the board.\<close>

definition count_pieces :: "board \<Rightarrow> bool \<Rightarrow> piece_type \<Rightarrow> int" where
  "count_pieces b c k =
     int (card {square. square < 64 \<and> piece_at b square = Some \<lparr>piece_type = k, color = c\<rparr>})"

lemma fold_material:
  "fold (\<lambda>square evaluation.
           case piece_at b square of
             None \<Rightarrow> evaluation
           | Some p \<Rightarrow>
               (let val = values (piece_type p) in
                if color p = WHITE then evaluation - val else evaluation + val))
     xs acc
   = acc + (\<Sum>square \<leftarrow> xs. case piece_at b square of None \<Rightarrow> 0 | Some p \<Rightarrow> signed_value p)"
proof (induction xs arbitrary: acc)
  case Nil
  show ?case by simp
next
  case (Cons x xs)
  have "values k = point_value k" for k
    by (cases k) (simp_all add: point_value_def)
  then show ?case
    by (simp add: Cons.IH signed_value_def WHITE_def BLACK_def Let_def split: option.splits)
qed

lemma sum_squares:
  "(\<Sum>square \<leftarrow> SQUARES. case piece_at b square of None \<Rightarrow> 0 | Some p \<Rightarrow> signed_value p)
   = material b"
proof -
  have "(\<Sum>square \<leftarrow> SQUARES. case piece_at b square of None \<Rightarrow> 0 | Some p \<Rightarrow> signed_value p)
      = (\<Sum>square \<in> {..<64}. case piece_at b square of None \<Rightarrow> 0 | Some p \<Rightarrow> signed_value p)"
    unfolding SQUARES_def by (simp add: sum_list_distinct_conv_sum_set atLeast0LessThan)
  also have "\<dots> = (\<Sum>square \<in> occupied b. case piece_at b square of None \<Rightarrow> 0 | Some p \<Rightarrow> signed_value p)"
    by (rule sum.mono_neutral_right) (auto simp: occupied_def)
  also have "\<dots> = material b"
    unfolding material_def by (rule sum.cong) (auto simp: occupied_def)
  finally show ?thesis .
qed

lemma evaluate_board_material:
  "\<not> is_checkmate E b \<Longrightarrow> evaluate_board E b = material b"
  by (simp add: evaluate_board_def fold_material sum_squares)

subsection \<open>Positions and engines used as examples\<close>

definition board_of :: "(nat \<times> piece) list \<Rightarrow> bool \<Rightarrow> board" where
  "board_of ps t = \<lparr>piece_at = map_of ps, castling_rights = 0, turn = t, stack = []\<rparr>"

text \<open>An engine that reports a finished game without checkmate, as for a stalemate, and
  one that reports checkmate.\<close>

definition stalemate_engine :: engine where
  "stalemate_engine =
     \<lparr>legal_moves = (\<lambda>b. []), push = (\<lambda>b m. Inl ValueError), pop = (\<lambda>b. Inl IndexError),
      is_checkmate = (\<lambda>b. False), is_game_over = (\<lambda>b. True)\<rparr>"

definition checkmate_engine :: engine where
  "checkmate_engine =
     \<lparr>legal_moves = (\<lambda>b. []), push = (\<lambda>b m. Inl ValueError), pop = (\<lambda>b. Inl IndexError),
      is_checkmate = (\<lambda>b. True), is_game_over = (\<lambda>b. True)\<rparr>"

text \<open>White: king h1, pawn a2. Black: queen f2, king g3. White to move has no move and is
  not in check.\<close>

definition stalemate_board :: board where
  "stalemate_board =
     board_of [(7, \<lparr>piece_type = KING, color = WHITE\<rparr>), (8, \<lparr>piece_type = PAWN, color = WHITE\<rparr>),
               (13, \<lparr>piece_type = QUEEN, color = BLACK\<rparr>), (22, \<lparr>piece_type = KING, color = BLACK\<rparr>),
               (16, \<lparr>piece_type = PAWN, color = BLACK\<rparr>)] WHITE"

text \<open>White: king h1. Black: queen g2, king g3. White to move is checkmated.\<close>

definition white_mated_board :: board where
  "white_mated_board =
     board_of [(7, \<lparr>piece_type = KING, color = WHITE\<rparr>),
               (14, \<lparr>piece_type = QUEEN, color = BLACK\<rparr>), (22, \<lparr>piece_type = KING, color = BLACK\<rparr>)] WHITE"


lemma sum_indicator:
  "(\<Sum>s \<in> {..<64::nat}. if Q s then v else 0) = v * int (card {s. s < 64 \<and> Q s})"
proof -
  have "(\<Sum>s \<in> {..<64::nat}. if Q s then v else 0) = (\<Sum>s \<in> {s \<in> {..<64}. Q s}. v)"
    by (rule sum.inter_filter [symmetric]) simp
  also have "{s \<in> {..<64}. Q s} = {s. s < 64 \<and> Q s}"
    by auto
  finally show ?thesis by (simp add: mult.commute)
qed

definition all_pieces :: "piece list" where
  "all_pieces = [\<lparr>piece_type = k, color = c\<rparr>. c \<leftarrow> [BLACK, WHITE], k \<leftarrow> [PAWN, KNIGHT, BISHOP, ROOK, QUEEN, KING]]"

lemma square_value_split:
  "(case piece_at b s of None \<Rightarrow> 0 | Some p \<Rightarrow> signed_value p)
   = (\<Sum>p \<leftarrow> all_pieces. if piece_at b s = Some p then signed_value p else 0)"
proof (cases "piece_at b s")
  case None
  then show ?thesis by simp
next
  case (Some p)
  obtain k c where p: "p = \<lparr>piece_type = k, color = c\<rparr>"
    by (cases p) simp
  show ?thesis
    unfolding Some p
    by (cases k; cases c) (simp_all add: all_pieces_def WHITE_def BLACK_def)
qed

lemma material_counts:
  "material b =
     1 * (count_pieces b BLACK PAWN - count_pieces b WHITE PAWN)
     + 3 * (count_pieces b BLACK KNIGHT - count_pieces b WHITE KNIGHT)
     + 3 * (count_pieces b BLACK BISHOP - count_pieces b WHITE BISHOP)
     + 5 * (count_pieces b BLACK ROOK - count_pieces b WHITE ROOK)
     + 9 * (count_pieces b BLACK QUEEN - count_pieces b WHITE QUEEN)
     + 0 * (count_pieces b BLACK KING - count_pieces b WHITE KING)"
proof -
  have "material b
      = (\<Sum>s \<in> {..<64}. case piece_at b s of None \<Rightarrow> 0 | Some p \<Rightarrow> signed_value p)"
    unfolding sum_squares [symmetric] SQUARES_def
    by (simp add: sum_list_distinct_conv_sum_set atLeast0LessThan)
  also have "\<dots> = (\<Sum>s \<in> {..<64}. \<Sum>p \<leftarrow> all_pieces.
        if piece_at b s = Some p then signed_value p else 0)"
    by (simp only: square_value_split)
  also have "\<dots> = (\<Sum>p \<leftarrow> all_pieces. \<Sum>s \<in> {..<64}.
        if piece_at b s = Some p then signed_value p else 0)"
    by (simp add: all_pieces_def sum.distrib)
  also have "\<dots> = (\<Sum>p \<leftarrow> all_pieces.
        signed_value p * int (card {s. s < 64 \<and> piece_at b s = Some p}))"
    by (simp only: sum_indicator)
  finally show ?thesis
    by (simp add: all_pieces_def count_pieces_def signed_value_def point_value_def
        WHITE_def BLACK_def algebra_simps)
qed

text \<open>
  Claim C8. For every position that is not checkmate, \<open>evaluate_board\<close> is the material
  sum over the occupied squares, with pawn 1, knight 3, bishop 3, rook 5, queen 9, king 0,
  added for Black and subtracted for White. Nothing but checkmate is asked of the engine, so
  a stalemate is scored in this way too.
\<close>

theorem evaluate_board_material_sum:
  assumes "\<not> is_checkmate E b"
  shows "evaluate_board E b = material b
       \<and> evaluate_board E b =
           1 * (count_pieces b BLACK PAWN - count_pieces b WHITE PAWN)
           + 3 * (count_pieces b BLACK KNIGHT - count_pieces b WHITE KNIGHT)
           + 3 * (count_pieces b BLACK BISHOP - count_pieces b WHITE BISHOP)
           + 5 * (count_pieces b BLACK ROOK - count_pieces b WHITE ROOK)
           + 9 * (count_pieces b BLACK QUEEN - count_pieces b WHITE QUEEN)
           + 0 * (count_pieces b BLACK KING - count_pieces b WHITE KING)"
  using evaluate_board_material [OF assms] material_counts [of b] by simp

lemma SQUARES_head: "SQUARES = 0 # 1 # [2..<64]"
  by (simp add: SQUARES_def upt_conv_Cons)

theorem evaluate_board_material_sum_witness:
  "\<not> is_checkmate stalemate_engine stalemate_board
   \<and> is_game_over stalemate_engine stalemate_board
   \<and> material stalemate_board = 9
   \<and> evaluate_board stalemate_engine stalemate_board = 9"
proof -
  have no_mate: "\<not> is_checkmate stalemate_engine stalemate_board"
    by (simp add: stalemate_engine_def)
  have "evaluate_board stalemate_engine stalemate_board = 9"
    by (simp add: evaluate_board_def stalemate_engine_def stalemate_board_def board_of_def
        SQUARES_head upt_rec_numeral WHITE_def BLACK_def)
  with evaluate_board_material_sum [OF no_mate] show ?thesis
    by (simp add: stalemate_engine_def)
qed

text \<open>
  Claim C1, on the code. For a position that is checkmate \<open>evaluate_board\<close> returns \<open>-9999\<close>
  when White is to move and \<open>9999\<close> when Black is to move: where Black has mated White the
  score is the lowest there is, below the material of the same position, which counts the
  black queen for Black.
\<close>

theorem checkmate_score_of_mated_white:
  "turn white_mated_board = WHITE
   \<and> is_checkmate checkmate_engine white_mated_board
   \<and> evaluate_board checkmate_engine white_mated_board = - 9999
   \<and> material white_mated_board = 9"
proof -
  have "evaluate_board stalemate_engine white_mated_board = 9"
    by (simp add: evaluate_board_def stalemate_engine_def white_mated_board_def board_of_def
        SQUARES_head upt_rec_numeral WHITE_def BLACK_def)
  moreover have "\<not> is_checkmate stalemate_engine white_mated_board"
    by (simp add: stalemate_engine_def)
  ultimately have "material white_mated_board = 9"
    using evaluate_board_material by metis
  then show ?thesis
    by (simp add: evaluate_board_def checkmate_engine_def white_mated_board_def board_of_def
        WHITE_def)
qed


section \<open>What the search assumes of the rules engine\<close>

text \<open>
  The specification's interface of the rules engine: undoing reverses the most recent
  applied move exactly; a move that the engine lists can be applied; a position without
  legal moves is over; and a listed move goes from one square of the board to another, so
  it is not the null move.
\<close>

definition undo_exact :: "engine \<Rightarrow> bool" where
  "undo_exact E \<longleftrightarrow> (\<forall>b m b'. push E b m = Inr b' \<longrightarrow> pop E b' = Inr b)"

definition applies_legal_moves :: "engine \<Rightarrow> bool" where
  "applies_legal_moves E \<longleftrightarrow> (\<forall>b. \<forall>m \<in> set (legal_moves E b). \<exists>b'. push E b m = Inr b')"

definition over_without_moves :: "engine \<Rightarrow> bool" where
  "over_without_moves E \<longleftrightarrow> (\<forall>b. legal_moves E b = [] \<longrightarrow> is_game_over E b)"

definition moves_on_board :: "engine \<Rightarrow> bool" where
  "moves_on_board E \<longleftrightarrow>
     (\<forall>b. \<forall>m \<in> set (legal_moves E b).
        from_square m < 64 \<and> to_square m < 64 \<and> from_square m \<noteq> to_square m)"

section \<open>The game tree and its minimax value\<close>

text \<open>
  The tree that the search walks from a position: a leaf with the evaluation where the depth
  is used up or the game is over, and otherwise one subtree for each legal move, in the
  engine's order.
\<close>

datatype tree = Leaf int | Node "tree list"

definition child :: "engine \<Rightarrow> board \<Rightarrow> move \<Rightarrow> board" where
  "child E b m = (case push E b m of Inr b' \<Rightarrow> b' | Inl e \<Rightarrow> b)"

primrec game_tree :: "engine \<Rightarrow> nat \<Rightarrow> board \<Rightarrow> tree" where
  "game_tree E 0 b = Leaf (evaluate_board E b)"
| "game_tree E (Suc depth) b =
     (if is_game_over E b then Leaf (evaluate_board E b)
      else Node (map (\<lambda>m. game_tree E depth (child E b m)) (legal_moves E b)))"

text \<open>Full minimax, without pruning: the largest value of the subtrees for the maximizing
  side, the smallest for the other, starting from \<open>-\<infinity>\<close> and \<open>+\<infinity>\<close>.\<close>

fun minimax_value :: "bool \<Rightarrow> tree \<Rightarrow> score" where
  "minimax_value maximizing (Leaf v) = Fin v"
| "minimax_value maximizing (Node ts) =
     (if maximizing then fold max (map (minimax_value False) ts) NegInf
      else fold min (map (minimax_value True) ts) PosInf)"

definition full_minimax :: "engine \<Rightarrow> nat \<Rightarrow> bool \<Rightarrow> board \<Rightarrow> score" where
  "full_minimax E depth maximizing b = minimax_value maximizing (game_tree E depth b)"

section \<open>Restoring the board\<close>

lemma max_loop_restores:
  assumes inv: "undo_exact E"
    and deeper: "\<And>a be x v y. deeper a be x = (Inr v, y) \<Longrightarrow> y = x"
  shows "max_loop E deeper ms max_eval alpha beta b = (Inr v, b') \<Longrightarrow> b' = b"
proof (induction ms arbitrary: max_eval alpha)
  case Nil
  then show ?case by simp
next
  case (Cons m ms)
  from Cons.prems obtain b1 where b1: "push E b m = Inr b1"
    by (auto split: sum.splits)
  with Cons.prems obtain eval b2 where rec: "deeper alpha beta b1 = (Inr eval, b2)"
    by (auto split: sum.splits prod.splits)
  then have "b2 = b1" by (rule deeper)
  with inv b1 have popped: "pop E b2 = Inr b"
    by (simp add: undo_exact_def)
  show ?case
  proof (cases "beta \<le> max alpha eval")
    case True
    with Cons.prems b1 rec popped show ?thesis by (simp add: Let_def)
  next
    case False
    with Cons.prems b1 rec popped
    have "max_loop E deeper ms (max max_eval eval) (max alpha eval) beta b = (Inr v, b')"
      by (simp add: Let_def)
    then show ?thesis by (rule Cons.IH)
  qed
qed

lemma min_loop_restores:
  assumes inv: "undo_exact E"
    and deeper: "\<And>a be x v y. deeper a be x = (Inr v, y) \<Longrightarrow> y = x"
  shows "min_loop E deeper ms min_eval alpha beta b = (Inr v, b') \<Longrightarrow> b' = b"
proof (induction ms arbitrary: min_eval beta)
  case Nil
  then show ?case by simp
next
  case (Cons m ms)
  from Cons.prems obtain b1 where b1: "push E b m = Inr b1"
    by (auto split: sum.splits)
  with Cons.prems obtain eval b2 where rec: "deeper alpha beta b1 = (Inr eval, b2)"
    by (auto split: sum.splits prod.splits)
  then have "b2 = b1" by (rule deeper)
  with inv b1 have popped: "pop E b2 = Inr b"
    by (simp add: undo_exact_def)
  show ?case
  proof (cases "min beta eval \<le> alpha")
    case True
    with Cons.prems b1 rec popped show ?thesis by (simp add: Let_def)
  next
    case False
    with Cons.prems b1 rec popped
    have "min_loop E deeper ms (min min_eval eval) alpha (min beta eval) b = (Inr v, b')"
      by (simp add: Let_def)
    then show ?thesis by (rule Cons.IH)
  qed
qed

lemma minimax_restores:
  assumes "undo_exact E"
  shows "minimax E depth alpha beta maximizing b = (Inr v, b') \<Longrightarrow> b' = b"
proof (induction depth arbitrary: alpha beta maximizing b v b')
  case 0
  then show ?case by simp
next
  case (Suc depth)
  show ?case
  proof (cases "is_game_over E b")
    case True
    with Suc.prems show ?thesis by simp
  next
    case False
    show ?thesis
    proof (cases maximizing)
      case True
      with False Suc.prems
      have "max_loop E (\<lambda>alpha beta b. minimax E depth alpha beta False b) (legal_moves E b)
              NegInf alpha beta b = (Inr v, b')"
        by (simp add: Let_def)
      moreover have "\<And>a be x v y. minimax E depth a be False x = (Inr v, y) \<Longrightarrow> y = x"
        by (rule Suc.IH)
      ultimately show ?thesis
        using max_loop_restores
          [where deeper = "\<lambda>alpha beta b. minimax E depth alpha beta False b", OF assms]
        by blast
    next
      case no: False
      with False Suc.prems
      have "min_loop E (\<lambda>alpha beta b. minimax E depth alpha beta True b) (legal_moves E b)
              PosInf alpha beta b = (Inr v, b')"
        by (simp add: Let_def)
      moreover have "\<And>a be x v y. minimax E depth a be True x = (Inr v, y) \<Longrightarrow> y = x"
        by (rule Suc.IH)
      ultimately show ?thesis
        using min_loop_restores
          [where deeper = "\<lambda>alpha beta b. minimax E depth alpha beta True b", OF assms]
        by blast
    qed
  qed
qed

lemma root_loop_restores:
  assumes inv: "undo_exact E"
  shows "root_loop E ms best_move best_value b = (Inr r, b') \<Longrightarrow> b' = b"
proof (induction ms arbitrary: best_move best_value)
  case Nil
  then show ?case by simp
next
  case (Cons m ms)
  from Cons.prems obtain b1 where b1: "push E b m = Inr b1"
    by (auto split: sum.splits)
  with Cons.prems obtain val b2 where rec: "minimax E 2 NegInf PosInf False b1 = (Inr val, b2)"
    by (auto split: sum.splits prod.splits)
  then have "b2 = b1" by (rule minimax_restores [OF inv])
  with inv b1 have popped: "pop E b2 = Inr b"
    by (simp add: undo_exact_def)
  show ?case
  proof (cases "val > best_value")
    case True
    with Cons.prems b1 rec popped have "root_loop E ms (Some m) val b = (Inr r, b')"
      by simp
    then show ?thesis by (rule Cons.IH)
  next
    case False
    with Cons.prems b1 rec popped have "root_loop E ms best_move best_value b = (Inr r, b')"
      by simp
    then show ?thesis by (rule Cons.IH)
  qed
qed

subsection \<open>Scripted engines\<close>

text \<open>
  Engines for examples. Applying a move saves the position on the board's stack, carries
  the occupant of the move's first square to its second and passes the turn; undoing takes
  the saved position back. The legal moves are those of a fixed list that start on a piece
  of the side to move, and the game is over when there is none.
\<close>

definition step :: "nat \<Rightarrow> nat \<Rightarrow> move" where
  "step a b = \<lparr>from_square = a, to_square = b, promotion = None, drop = None\<rparr>"

definition carry :: "board \<Rightarrow> move \<Rightarrow> board" where
  "carry b m =
     b\<lparr>piece_at := (piece_at b)(to_square m := piece_at b (from_square m), from_square m := None),
       turn := \<not> turn b,
       stack := (piece_at b, castling_rights b, turn b) # stack b\<rparr>"

definition take_back :: "board \<Rightarrow> error + board" where
  "take_back b =
     (case stack b of
        [] \<Rightarrow> Inl IndexError
      | (p, c, t) # rest \<Rightarrow> Inr (b\<lparr>piece_at := p, castling_rights := c, turn := t, stack := rest\<rparr>))"

definition own_piece :: "board \<Rightarrow> move \<Rightarrow> bool" where
  "own_piece b m =
     (case piece_at b (from_square m) of Some p \<Rightarrow> color p = turn b | None \<Rightarrow> False)"

definition script :: "move list" where
  "script = [step 56 0, step 59 51, step 0 56, step 4 12]"

definition scripted_engine :: engine where
  "scripted_engine =
     \<lparr>legal_moves = (\<lambda>b. filter (own_piece b) script),
      push = (\<lambda>b m. Inr (carry b m)),
      pop = take_back,
      is_checkmate = (\<lambda>b. False),
      is_game_over = (\<lambda>b. filter (own_piece b) script = [])\<rparr>"

text \<open>The same engine, except that it rejects every move below the first ply.\<close>

definition rejecting_engine :: engine where
  "rejecting_engine =
     \<lparr>legal_moves = (\<lambda>b. filter (own_piece b) script),
      push = (\<lambda>b m. if stack b = [] then Inr (carry b m) else Inl ValueError),
      pop = take_back,
      is_checkmate = (\<lambda>b. False),
      is_game_over = (\<lambda>b. filter (own_piece b) script = [])\<rparr>"

text \<open>White: king e1, rook a1. Black: king e8, rook a8, queen d8. Black to move.\<close>

definition rooks_board :: board where
  "rooks_board =
     board_of [(4, \<lparr>piece_type = KING, color = WHITE\<rparr>), (0, \<lparr>piece_type = ROOK, color = WHITE\<rparr>),
               (60, \<lparr>piece_type = KING, color = BLACK\<rparr>), (56, \<lparr>piece_type = ROOK, color = BLACK\<rparr>),
               (59, \<lparr>piece_type = QUEEN, color = BLACK\<rparr>)] BLACK"

lemma take_back_carry: "take_back (carry b m) = Inr b"
  by (simp add: take_back_def carry_def)

lemma scripted_engine_undo_exact: "undo_exact scripted_engine"
  by (auto simp: undo_exact_def scripted_engine_def take_back_carry)

lemma rejecting_engine_undo_exact: "undo_exact rejecting_engine"
  by (auto simp: undo_exact_def rejecting_engine_def take_back_carry split: if_splits)

lemma scripted_engine_applies: "applies_legal_moves scripted_engine"
  by (simp add: applies_legal_moves_def scripted_engine_def)

lemma scripted_engine_over: "over_without_moves scripted_engine"
  by (simp add: over_without_moves_def scripted_engine_def)

lemma scripted_engine_moves: "moves_on_board scripted_engine"
  by (auto simp: moves_on_board_def scripted_engine_def script_def step_def)

lemmas scripted_simps =
  scripted_engine_def script_def step_def carry_def take_back_def own_piece_def rooks_board_def
  board_of_def evaluate_board_def SQUARES_head upt_rec_numeral WHITE_def BLACK_def Let_def

lemma two_plies:
  "minimax E 2 = minimax E (Suc (Suc 0))"
  "game_tree E 2 = game_tree E (Suc (Suc 0))"
  by (simp_all add: numeral_2_eq_2)

text \<open>
  Claim C7, as the code has it. In \<open>minimax\<close> and in the root loop every \<open>push\<close> is followed
  by one \<open>pop\<close> after the recursive call has returned, so that a search that returns
  normally leaves the board as it was at entry, given that the engine's \<open>pop\<close> reverses its
  \<open>push\<close>. Nothing undoes a move when the recursive call, or \<open>push\<close> or \<open>pop\<close>, raises: the
  exception leaves the loops at once.
\<close>

theorem search_restores_board:
  assumes "undo_exact E"
  shows "(minimax E depth alpha beta maximizing b = (Inr v, b') \<longrightarrow> b' = b)
       \<and> (root_loop E moves best_move best_value b = (Inr r, b'') \<longrightarrow> b'' = b)"
  using minimax_restores [OF assms] root_loop_restores [OF assms] by blast

theorem search_restores_board_witness:
  "undo_exact scripted_engine
   \<and> fst (minimax scripted_engine 2 NegInf PosInf True rooks_board) = Inr (Fin 14)
   \<and> snd (minimax scripted_engine 2 NegInf PosInf True rooks_board) = rooks_board
   \<and> fst (root_loop scripted_engine (legal_moves scripted_engine rooks_board) None NegInf
            rooks_board) = Inr (Some (step 56 0))
   \<and> snd (root_loop scripted_engine (legal_moves scripted_engine rooks_board) None NegInf
            rooks_board) = rooks_board"
proof -
  let ?inner = "minimax scripted_engine 2 NegInf PosInf True rooks_board"
  let ?root = "root_loop scripted_engine (legal_moves scripted_engine rooks_board) None NegInf
      rooks_board"
  have inner_value: "fst ?inner = Inr (Fin 14)"
    by (simp add: scripted_simps two_plies)
  have best: "fst ?root = Inr (Some (step 56 0))"
    by (simp add: scripted_simps two_plies less_score_def)
  have "?inner = (Inr (Fin 14), snd ?inner)"
    using inner_value by (metis prod.collapse)
  moreover have "?root = (Inr (Some (step 56 0)), snd ?root)"
    using best by (metis prod.collapse)
  ultimately have "snd ?inner = rooks_board \<and> snd ?root = rooks_board"
    using search_restores_board [OF scripted_engine_undo_exact] by blast
  with inner_value best show ?thesis
    by (simp add: scripted_engine_undo_exact)
qed

theorem failed_search_keeps_move_applied:
  "undo_exact rejecting_engine
   \<and> fst (minimax rejecting_engine 2 NegInf PosInf True rooks_board) = Inl ValueError
   \<and> stack (snd (minimax rejecting_engine 2 NegInf PosInf True rooks_board)) \<noteq> stack rooks_board
   \<and> fst (root_loop rejecting_engine (legal_moves rejecting_engine rooks_board) None NegInf
            rooks_board) = Inl ValueError
   \<and> stack (snd (root_loop rejecting_engine (legal_moves rejecting_engine rooks_board) None NegInf
            rooks_board)) \<noteq> stack rooks_board"
  by (simp add: rejecting_engine_undo_exact)
    (simp add: scripted_simps rejecting_engine_def two_plies)

section \<open>Alpha-beta pruning against full minimax\<close>

text \<open>
  What a call with the window \<open>(alpha, beta)\<close> promises about its result \<open>v\<close>, where \<open>t\<close> is
  the full minimax value: inside the window the result is exact, at or below \<open>alpha\<close> it is
  an upper bound of \<open>t\<close>, at or above \<open>beta\<close> a lower bound.
\<close>

definition within :: "score \<Rightarrow> score \<Rightarrow> score \<Rightarrow> score \<Rightarrow> bool" where
  "within alpha beta v t \<longleftrightarrow>
     (v \<le> alpha \<longrightarrow> t \<le> v) \<and> (alpha < v \<and> v < beta \<longrightarrow> v = t) \<and> (beta \<le> v \<longrightarrow> v \<le> t)"

lemma NegInf_least [simp]: "NegInf \<le> x" "\<not> x < NegInf"
  by (cases x; simp add: less_score_def)+

lemma PosInf_greatest [simp]: "x \<le> PosInf" "\<not> PosInf < x"
  by (cases x; simp add: less_score_def)+

lemma NegInf_less_PosInf [simp]: "NegInf < PosInf"
  by (simp add: less_score_def)

lemma within_full_window: "within NegInf PosInf v t \<Longrightarrow> v = t"
proof (cases v)
  case NegInf
  assume "within NegInf PosInf v t"
  with NegInf have "t \<le> NegInf" by (simp add: within_def)
  with NegInf show ?thesis by (simp add: antisym)
next
  case (Fin i)
  assume "within NegInf PosInf v t"
  moreover have "NegInf < Fin i" "Fin i < PosInf" by (simp_all add: less_score_def)
  ultimately show ?thesis using Fin by (simp add: within_def)
next
  case PosInf
  assume "within NegInf PosInf v t"
  with PosInf have "PosInf \<le> t" by (simp add: within_def)
  with PosInf show ?thesis by (simp add: antisym)
qed

lemma fold_max_ge: "(s::score) \<le> fold max xs s"
proof (induction xs arbitrary: s)
  case Nil
  show ?case by simp
next
  case (Cons x xs)
  have "s \<le> max x s" by simp
  also have "\<dots> \<le> fold max xs (max x s)" by (rule Cons.IH)
  finally show ?case by simp
qed

lemma fold_min_le: "fold min xs (s::score) \<le> s"
proof (induction xs arbitrary: s)
  case Nil
  show ?case by simp
next
  case (Cons x xs)
  have "fold min xs (min x s) \<le> min x s" by (rule Cons.IH)
  also have "\<dots> \<le> s" by simp
  finally show ?case by simp
qed

lemma max_loop_bounds:
  assumes inv: "undo_exact E"
    and deeper: "\<And>m a. m \<in> set ms \<Longrightarrow> a < beta \<Longrightarrow>
       \<exists>b1 e. push E b m = Inr b1 \<and> deeper a beta b1 = (Inr e, b1) \<and> within a beta e (g m)"
    and alpha: "alpha = max alpha0 max_eval" "alpha < beta"
    and sofar: "(max_eval \<le> alpha0 \<longrightarrow> t \<le> max_eval) \<and> (alpha0 < max_eval \<longrightarrow> max_eval = t)"
  shows "\<exists>v. max_loop E deeper ms max_eval alpha beta b = (Inr v, b)
           \<and> within alpha0 beta v (fold max (map g ms) t)"
  using deeper alpha sofar
proof (induction ms arbitrary: max_eval alpha t)
  case Nil
  then show ?case
    by (auto simp: within_def)
next
  case (Cons m ms)
  from Cons.prems(1) [of m alpha] Cons.prems(3)
  obtain b1 e where b1: "push E b m = Inr b1"
    and rec: "deeper alpha beta b1 = (Inr e, b1)"
    and e: "within alpha beta e (g m)"
    by auto
  from inv b1 have popped: "pop E b1 = Inr b"
    by (simp add: undo_exact_def)
  show ?case
  proof (cases "beta \<le> max alpha e")
    case True
    have "max (g m) t \<le> fold max (map g ms) (max (g m) t)"
      by (rule fold_max_ge)
    then have "g m \<le> fold max (map g ms) (max (g m) t)"
      by simp
    with True e Cons.prems(2,3,4)
    have "within alpha0 beta (max max_eval e) (fold max (map g ms) (max (g m) t))"
      by (auto simp: within_def max_def split: if_splits)
    with True b1 rec popped show ?thesis
      by (simp add: Let_def)
  next
    case False
    have step: "\<And>m' a. m' \<in> set ms \<Longrightarrow> a < beta \<Longrightarrow>
       \<exists>b1 e. push E b m' = Inr b1 \<and> deeper a beta b1 = (Inr e, b1) \<and> within a beta e (g m')"
      using Cons.prems(1) by simp
    have a': "max alpha e = max alpha0 (max max_eval e)"
      using Cons.prems(2) by (simp add: max.assoc)
    have lt: "max alpha e < beta"
      using False by (simp add: not_le)
    have sofar': "(max max_eval e \<le> alpha0 \<longrightarrow> max (g m) t \<le> max max_eval e)
        \<and> (alpha0 < max max_eval e \<longrightarrow> max max_eval e = max (g m) t)"
      using e False Cons.prems(2,3,4)
      by (auto simp: within_def max_def split: if_splits)
    from Cons.IH [OF step a' lt sofar']
    obtain v where "max_loop E deeper ms (max max_eval e) (max alpha e) beta b = (Inr v, b)"
      and "within alpha0 beta v (fold max (map g ms) (max (g m) t))"
      by blast
    with False b1 rec popped show ?thesis
      by (simp add: Let_def)
  qed
qed

lemma min_loop_bounds:
  assumes inv: "undo_exact E"
    and deeper: "\<And>m be. m \<in> set ms \<Longrightarrow> alpha < be \<Longrightarrow>
       \<exists>b1 e. push E b m = Inr b1 \<and> deeper alpha be b1 = (Inr e, b1) \<and> within alpha be e (g m)"
    and beta: "beta = min beta0 min_eval" "alpha < beta"
    and sofar: "(beta0 \<le> min_eval \<longrightarrow> min_eval \<le> t) \<and> (min_eval < beta0 \<longrightarrow> min_eval = t)"
  shows "\<exists>v. min_loop E deeper ms min_eval alpha beta b = (Inr v, b)
           \<and> within alpha beta0 v (fold min (map g ms) t)"
  using deeper beta sofar
proof (induction ms arbitrary: min_eval beta t)
  case Nil
  then show ?case
    by (auto simp: within_def)
next
  case (Cons m ms)
  from Cons.prems(1) [of m beta] Cons.prems(3)
  obtain b1 e where b1: "push E b m = Inr b1"
    and rec: "deeper alpha beta b1 = (Inr e, b1)"
    and e: "within alpha beta e (g m)"
    by auto
  from inv b1 have popped: "pop E b1 = Inr b"
    by (simp add: undo_exact_def)
  show ?case
  proof (cases "min beta e \<le> alpha")
    case True
    have "fold min (map g ms) (min (g m) t) \<le> min (g m) t"
      by (rule fold_min_le)
    then have "fold min (map g ms) (min (g m) t) \<le> g m"
      by simp
    with True e Cons.prems(2,3,4)
    have "within alpha beta0 (min min_eval e) (fold min (map g ms) (min (g m) t))"
      by (auto simp: within_def min_def split: if_splits)
    with True b1 rec popped show ?thesis
      by (simp add: Let_def)
  next
    case False
    have step: "\<And>m' be. m' \<in> set ms \<Longrightarrow> alpha < be \<Longrightarrow>
       \<exists>b1 e. push E b m' = Inr b1 \<and> deeper alpha be b1 = (Inr e, b1) \<and> within alpha be e (g m')"
      using Cons.prems(1) by simp
    have b': "min beta e = min beta0 (min min_eval e)"
      using Cons.prems(2) by (simp add: min.assoc)
    have lt: "alpha < min beta e"
      using False by (simp add: not_le)
    have sofar': "(beta0 \<le> min min_eval e \<longrightarrow> min min_eval e \<le> min (g m) t)
        \<and> (min min_eval e < beta0 \<longrightarrow> min min_eval e = min (g m) t)"
      using e False Cons.prems(2,3,4)
      by (auto simp: within_def min_def split: if_splits)
    from Cons.IH [OF step b' lt sofar']
    obtain v where "min_loop E deeper ms (min min_eval e) alpha (min beta e) b = (Inr v, b)"
      and "within alpha beta0 v (fold min (map g ms) (min (g m) t))"
      by blast
    with False b1 rec popped show ?thesis
      by (simp add: Let_def)
  qed
qed


lemma within_exact: "within alpha beta v v"
  by (simp add: within_def)

lemma child_push: "push E b m = Inr b1 \<Longrightarrow> child E b m = b1"
  by (simp add: child_def)

lemma full_minimax_simps:
  "full_minimax E 0 maximizing b = Fin (evaluate_board E b)"
  "is_game_over E b \<Longrightarrow> full_minimax E (Suc depth) maximizing b = Fin (evaluate_board E b)"
  "\<not> is_game_over E b \<Longrightarrow> full_minimax E (Suc depth) True b =
     fold max (map (\<lambda>m. full_minimax E depth False (child E b m)) (legal_moves E b)) NegInf"
  "\<not> is_game_over E b \<Longrightarrow> full_minimax E (Suc depth) False b =
     fold min (map (\<lambda>m. full_minimax E depth True (child E b m)) (legal_moves E b)) PosInf"
  by (simp_all add: full_minimax_def comp_def)

lemma minimax_bounds:
  assumes inv: "undo_exact E" and legal: "applies_legal_moves E"
  shows "alpha < beta \<Longrightarrow>
     \<exists>v. minimax E depth alpha beta maximizing b = (Inr v, b)
        \<and> within alpha beta v (full_minimax E depth maximizing b)"
proof (induction depth arbitrary: alpha beta maximizing b)
  case 0
  show ?case by (simp add: full_minimax_simps within_exact)
next
  case (Suc depth)
  show ?case
  proof (cases "is_game_over E b")
    case True
    then show ?thesis by (simp add: full_minimax_simps within_exact)
  next
    case False
    have sub: "\<exists>b1 e. push E b m = Inr b1 \<and> minimax E depth a be mx b1 = (Inr e, b1)
        \<and> within a be e (full_minimax E depth mx (child E b m))"
      if "m \<in> set (legal_moves E b)" and "a < be" for m a be mx
    proof -
      from legal that(1) obtain b1 where b1: "push E b m = Inr b1"
        by (auto simp: applies_legal_moves_def)
      from Suc.IH [OF that(2), of mx b1] b1 show ?thesis
        by (auto simp: child_push)
    qed
    show ?thesis
    proof (cases maximizing)
      case True
      have "\<exists>v. max_loop E (\<lambda>alpha beta b. minimax E depth alpha beta False b) (legal_moves E b)
                NegInf alpha beta b = (Inr v, b)
            \<and> within alpha beta v
                (fold max (map (\<lambda>m. full_minimax E depth False (child E b m)) (legal_moves E b))
                   NegInf)"
      proof (rule max_loop_bounds [OF inv])
        show "alpha = max alpha NegInf" by (simp add: max.absorb1)
        show "alpha < beta" by (rule Suc.prems)
        show "(NegInf \<le> alpha \<longrightarrow> NegInf \<le> NegInf) \<and> (alpha < NegInf \<longrightarrow> NegInf = NegInf)"
          by simp
      next
        fix m a
        assume "m \<in> set (legal_moves E b)" and "a < beta"
        then show "\<exists>b1 e. push E b m = Inr b1 \<and> minimax E depth a beta False b1 = (Inr e, b1)
            \<and> within a beta e (full_minimax E depth False (child E b m))"
          by (rule sub)
      qed
      with True False show ?thesis
        by (simp add: full_minimax_simps Let_def)
    next
      case no: False
      have "\<exists>v. min_loop E (\<lambda>alpha beta b. minimax E depth alpha beta True b) (legal_moves E b)
                PosInf alpha beta b = (Inr v, b)
            \<and> within alpha beta v
                (fold min (map (\<lambda>m. full_minimax E depth True (child E b m)) (legal_moves E b))
                   PosInf)"
      proof (rule min_loop_bounds [OF inv])
        show "beta = min beta PosInf" by (simp add: min.absorb1)
        show "alpha < beta" by (rule Suc.prems)
        show "(beta \<le> PosInf \<longrightarrow> PosInf \<le> PosInf) \<and> (PosInf < beta \<longrightarrow> PosInf = PosInf)"
          by simp
      next
        fix m be
        assume "m \<in> set (legal_moves E b)" and "alpha < be"
        then show "\<exists>b1 e. push E b m = Inr b1 \<and> minimax E depth alpha be True b1 = (Inr e, b1)
            \<and> within alpha be e (full_minimax E depth True (child E b m))"
          by (rule sub)
      qed
      with no False show ?thesis
        by (simp add: full_minimax_simps Let_def)
    qed
  qed
qed

text \<open>
  Claim C2. For every position and every depth, \<open>minimax\<close> called with the full window
  \<open>alpha = -\<infinity>\<close>, \<open>beta = +\<infinity>\<close> returns the value of the full minimax, without pruning,
  over the same game tree with the same evaluation at the leaves. The rules engine is as
  its interface says: it applies the moves it lists, and its undo reverses them.
\<close>

theorem alpha_beta_equals_full_minimax:
  assumes "undo_exact E" and "applies_legal_moves E"
  shows "minimax E depth NegInf PosInf maximizing b
       = (Inr (full_minimax E depth maximizing b), b)"
proof -
  from minimax_bounds [OF assms NegInf_less_PosInf, of depth maximizing b]
  obtain v where "minimax E depth NegInf PosInf maximizing b = (Inr v, b)"
    and "within NegInf PosInf v (full_minimax E depth maximizing b)"
    by blast
  then show ?thesis
    by (simp add: within_full_window)
qed

theorem alpha_beta_equals_full_minimax_witness:
  "undo_exact scripted_engine \<and> applies_legal_moves scripted_engine
   \<and> minimax scripted_engine 2 NegInf PosInf True rooks_board = (Inr (Fin 14), rooks_board)
   \<and> full_minimax scripted_engine 2 True rooks_board = Fin 14"
proof -
  have "minimax scripted_engine 2 NegInf PosInf True rooks_board = (Inr (Fin 14), rooks_board)"
    by (simp add: scripted_simps two_plies)
  with alpha_beta_equals_full_minimax
    [OF scripted_engine_undo_exact scripted_engine_applies, of 2 True rooks_board]
  show ?thesis
    by (simp add: scripted_engine_undo_exact scripted_engine_applies)
qed

section \<open>The answer of the root search\<close>

text \<open>The external name \<open>f_r\<close> of a square of the engine.\<close>

definition external_name :: "nat \<Rightarrow> pystr" where
  "external_name square = pair_name (int (square mod 8) + 1) (int (square div 8) + 1)"

lemma nth_concat_rows:
  "\<forall>row \<in> set rows. length row = n \<Longrightarrow> i < length rows \<Longrightarrow> j < n \<Longrightarrow>
   concat rows ! (n * i + j) = rows ! i ! j"
proof (induction rows arbitrary: i)
  case Nil
  then show ?case by simp
next
  case (Cons row rows)
  show ?case
  proof (cases i)
    case 0
    with Cons.prems show ?thesis by (simp add: nth_append)
  next
    case (Suc i')
    with Cons.prems have "concat rows ! (n * i' + j) = rows ! i' ! j"
      by (intro Cons.IH) auto
    moreover have "n * Suc i' + j = length row + (n * i' + j)"
      using Cons.prems(1) by simp
    ultimately show ?thesis
      using Suc by (simp add: nth_append del: mult_Suc_right)
  qed
qed

lemma below_8:
  "j < 8 \<Longrightarrow> j = 0 \<or> j = 1 \<or> j = 2 \<or> j = 3 \<or> j = 4 \<or> j = 5 \<or> j = 6 \<or> j = (7::nat)"
  by arith

lemma name_lists:
  "j < 8 \<Longrightarrow> FILE_NAMES ! j = 97 + j" "i < 8 \<Longrightarrow> RANK_NAMES ! i = 49 + i"
  "length FILE_NAMES = 8" "length RANK_NAMES = 8"
proof -
  show "j < 8 \<Longrightarrow> FILE_NAMES ! j = 97 + j"
    using below_8 [of j] by (auto simp: FILE_NAMES_def)
  show "i < 8 \<Longrightarrow> RANK_NAMES ! i = 49 + i"
    using below_8 [of i] by (auto simp: RANK_NAMES_def)
  show "length FILE_NAMES = 8" "length RANK_NAMES = 8"
    by (simp_all add: FILE_NAMES_def RANK_NAMES_def)
qed

lemma square_name_on_board:
  assumes "square < 64"
  shows "square_name square = Inr [97 + square mod 8, 49 + square div 8]"
proof -
  let ?rows = "map (\<lambda>r. map (\<lambda>f. [f, r]) FILE_NAMES) RANK_NAMES"
  have i: "square div 8 < 8" and j: "square mod 8 < 8"
    using assms by simp_all
  have len: "length SQUARE_NAMES = 64"
    by (simp add: SQUARE_NAMES_eval)
  have "concat ?rows ! (8 * (square div 8) + square mod 8) = ?rows ! (square div 8) ! (square mod 8)"
    by (rule nth_concat_rows) (use i j in \<open>simp_all add: name_lists\<close>)
  also have "\<dots> = [97 + square mod 8, 49 + square div 8]"
    using i j by (simp add: name_lists)
  finally have "SQUARE_NAMES ! square = [97 + square mod 8, 49 + square div 8]"
    by (simp add: SQUARE_NAMES_def)
  with assms len show ?thesis
    by (simp add: square_name_def)
qed

lemma external_of_square:
  assumes "square < 64"
  shows "\<exists>name. square_name square = Inr name
           \<and> map_from_algebraic name = Inr (external_name square)"
proof -
  let ?f = "int (square mod 8) + 1" and ?r = "int (square div 8) + 1"
  have range: "1 \<le> ?f" "?f \<le> 8" "1 \<le> ?r" "?r \<le> 8"
    using assms by simp_all
  have "[96 + nat ?f, 48 + nat ?r] = [97 + square mod 8, 49 + square div 8]"
    by (simp add: nat_add_distrib)
  with from_algebraic_pair [OF range] square_name_on_board [OF assms] show ?thesis
    by (simp add: external_name_def)
qed

lemma answer_of_move:
  assumes "from_square m < 64" and "to_square m < 64" and "from_square m \<noteq> to_square m"
  shows "answer (Some m) = Move_found (external_name (from_square m)) (external_name (to_square m))"
proof -
  from assms(3) have "move_bool m"
    by (auto simp: move_bool_def)
  moreover from external_of_square [OF assms(1)] obtain from_name
    where "square_name (from_square m) = Inr from_name"
      and "map_from_algebraic from_name = Inr (external_name (from_square m))"
    by blast
  moreover from external_of_square [OF assms(2)] obtain to_name
    where "square_name (to_square m) = Inr to_name"
      and "map_from_algebraic to_name = Inr (external_name (to_square m))"
    by blast
  ultimately show ?thesis
    by (simp add: answer_def)
qed

subsection \<open>The values of the search are finite\<close>

lemma fold_max_finite:
  assumes "\<forall>x \<in> set xs. \<exists>i. x = Fin i" and "s = NegInf \<or> (\<exists>i. s = Fin i)"
    and "xs \<noteq> [] \<or> (\<exists>i. s = Fin i)"
  shows "\<exists>i. fold max xs s = Fin i"
  using assms
proof (induction xs arbitrary: s)
  case Nil
  then show ?case by simp
next
  case (Cons x xs)
  from Cons.prems(1) obtain i where x: "x = Fin i" by auto
  with Cons.prems(2) have "\<exists>k. max x s = Fin k"
    by (auto simp: max_def)
  with Cons.prems(1) have "\<exists>k. fold max xs (max x s) = Fin k"
    by (intro Cons.IH) auto
  then show ?case by simp
qed

lemma fold_min_finite:
  assumes "\<forall>x \<in> set xs. \<exists>i. x = Fin i" and "s = PosInf \<or> (\<exists>i. s = Fin i)"
    and "xs \<noteq> [] \<or> (\<exists>i. s = Fin i)"
  shows "\<exists>i. fold min xs s = Fin i"
  using assms
proof (induction xs arbitrary: s)
  case Nil
  then show ?case by simp
next
  case (Cons x xs)
  from Cons.prems(1) obtain i where x: "x = Fin i" by auto
  with Cons.prems(2) have "\<exists>k. min x s = Fin k"
    by (auto simp: min_def)
  with Cons.prems(1) have "\<exists>k. fold min xs (min x s) = Fin k"
    by (intro Cons.IH) auto
  then show ?case by simp
qed

lemma full_minimax_finite:
  assumes "over_without_moves E"
  shows "\<exists>i. full_minimax E depth maximizing b = Fin i"
proof (induction depth arbitrary: maximizing b)
  case 0
  show ?case by (simp add: full_minimax_simps)
next
  case (Suc depth)
  show ?case
  proof (cases "is_game_over E b")
    case True
    then show ?thesis by (simp add: full_minimax_simps)
  next
    case False
    with assms have moves: "legal_moves E b \<noteq> []"
      by (auto simp: over_without_moves_def)
    show ?thesis
    proof (cases maximizing)
      case True
      have "\<exists>i. fold max (map (\<lambda>m. full_minimax E depth False (child E b m)) (legal_moves E b))
                NegInf = Fin i"
        by (rule fold_max_finite) (use moves Suc.IH in auto)
      with True False show ?thesis by (simp add: full_minimax_simps)
    next
      case no: False
      have "\<exists>i. fold min (map (\<lambda>m. full_minimax E depth True (child E b m)) (legal_moves E b))
                PosInf = Fin i"
        by (rule fold_min_finite) (use moves Suc.IH in auto)
      with no False show ?thesis by (simp add: full_minimax_simps)
    qed
  qed
qed

subsection \<open>The root loop\<close>

lemma root_loop_picks:
  assumes inv: "undo_exact E" and legal: "applies_legal_moves E" and over: "over_without_moves E"
    and ms: "set ms \<subseteq> set (legal_moves E b)"
  shows "\<exists>r. root_loop E ms best_move best_value b = (Inr r, b)
           \<and> (r = best_move \<or> (\<exists>m \<in> set ms. r = Some m))
           \<and> (best_value = NegInf \<and> ms \<noteq> [] \<longrightarrow> (\<exists>m \<in> set ms. r = Some m))
           \<and> (best_value = NegInf \<longrightarrow> (\<forall>m. ms = [m] \<longrightarrow> r = Some m))"
  using ms
proof (induction ms arbitrary: best_move best_value)
  case Nil
  show ?case by simp
next
  case (Cons m ms)
  from Cons.prems have "m \<in> set (legal_moves E b)"
    by simp
  with legal obtain b1 where b1: "push E b m = Inr b1"
    unfolding applies_legal_moves_def by blast
  with inv have popped: "pop E b1 = Inr b"
    by (simp add: undo_exact_def)
  obtain i where "full_minimax E 2 False b1 = Fin i"
    using full_minimax_finite [OF over] by blast
  with minimax_bounds [OF inv legal NegInf_less_PosInf, of 2 False b1]
  have val: "minimax E 2 NegInf PosInf False b1 = (Inr (Fin i), b1)"
    by (auto dest: within_full_window)
  have rest: "set ms \<subseteq> set (legal_moves E b)"
    using Cons.prems by simp
  show ?case
  proof (cases "Fin i > best_value")
    case True
    from Cons.IH [OF rest, of "Some m" "Fin i"]
    obtain r where "root_loop E ms (Some m) (Fin i) b = (Inr r, b)"
      and "r = Some m \<or> (\<exists>m' \<in> set ms. r = Some m')"
      and "\<forall>m'. ms = [m'] \<longrightarrow> Fin i = NegInf \<longrightarrow> r = Some m'"
      by blast
    moreover have "root_loop E [] (Some m) (Fin i) b = (Inr (Some m), b)"
      by simp
    ultimately show ?thesis
      using True b1 val popped by auto
  next
    case False
    then have "best_value \<noteq> NegInf"
      by (auto simp: less_score_def)
    moreover from Cons.IH [OF rest, of best_move best_value]
    obtain r where "root_loop E ms best_move best_value b = (Inr r, b)"
      and "r = best_move \<or> (\<exists>m' \<in> set ms. r = Some m')"
      by blast
    ultimately show ?thesis
      using False b1 val popped by auto
  qed
qed

text \<open>
  Claim C3. The root search answers with a move if and only if the position has a legal
  move; when there is exactly one, the answer is that move, whatever its score; when there
  is none, the answer is the game-over response. The rules engine is as its interface says:
  it applies the moves it lists, its undo reverses them, a position without legal moves is
  over, and a listed move goes from one square of the board to another.
\<close>

theorem root_search_moves_iff_legal_move:
  assumes "undo_exact E" and "applies_legal_moves E" and "over_without_moves E"
    and "moves_on_board E"
  shows "((\<exists>src dst. search E b = Move_found src dst) \<longleftrightarrow> legal_moves E b \<noteq> [])
       \<and> (\<forall>m. legal_moves E b = [m] \<longrightarrow>
             search E b = Move_found (external_name (from_square m)) (external_name (to_square m)))
       \<and> (legal_moves E b = [] \<longrightarrow> search E b = Game_over_or_no_move)"
proof -
  from root_loop_picks [OF assms(1-3) subset_refl, of b None NegInf]
  obtain r where run: "root_loop E (legal_moves E b) None NegInf b = (Inr r, b)"
    and some: "legal_moves E b \<noteq> [] \<longrightarrow> (\<exists>m \<in> set (legal_moves E b). r = Some m)"
    and only: "\<forall>m. legal_moves E b = [m] \<longrightarrow> r = Some m"
    by auto
  have found: "answer (Some m) = Move_found (external_name (from_square m)) (external_name (to_square m))"
    if "m \<in> set (legal_moves E b)" for m
    using assms(4) that by (intro answer_of_move) (auto simp: moves_on_board_def)
  have none: "search E b = Game_over_or_no_move" if "legal_moves E b = []"
    using that by (simp add: search_def answer_def)
  have "\<exists>src dst. search E b = Move_found src dst" if "legal_moves E b \<noteq> []"
  proof -
    from some that obtain m where "m \<in> set (legal_moves E b)" and "r = Some m"
      by blast
    with run found show ?thesis
      by (simp add: search_def)
  qed
  moreover have "search E b = Move_found (external_name (from_square m)) (external_name (to_square m))"
    if "legal_moves E b = [m]" for m
    using that only run found [of m] by (simp add: search_def)
  ultimately show ?thesis
    using none by auto
qed

text \<open>An engine with one legal move, the black queen from a2 to g2, after which it reports
  checkmate; and the position White: king h1; Black: king g3, queen a2; Black to move.\<close>

definition mating_engine :: engine where
  "mating_engine =
     \<lparr>legal_moves = (\<lambda>b. if stack b = [] then [step 8 14] else []),
      push = (\<lambda>b m. Inr (carry b m)),
      pop = take_back,
      is_checkmate = (\<lambda>b. stack b \<noteq> []),
      is_game_over = (\<lambda>b. stack b \<noteq> [])\<rparr>"

definition mate_in_one_board :: board where
  "mate_in_one_board =
     board_of [(7, \<lparr>piece_type = KING, color = WHITE\<rparr>),
               (22, \<lparr>piece_type = KING, color = BLACK\<rparr>), (8, \<lparr>piece_type = QUEEN, color = BLACK\<rparr>)] BLACK"

lemma mating_engine_contract:
  "undo_exact mating_engine" "applies_legal_moves mating_engine"
  "over_without_moves mating_engine" "moves_on_board mating_engine"
  by (auto simp: undo_exact_def applies_legal_moves_def over_without_moves_def moves_on_board_def
      mating_engine_def take_back_carry step_def split: if_splits)

theorem root_search_moves_iff_legal_move_witness:
  "legal_moves mating_engine mate_in_one_board = [step 8 14]
   \<and> minimax mating_engine 2 NegInf PosInf False (carry mate_in_one_board (step 8 14))
       = (Inr (Fin (- 9999)), carry mate_in_one_board (step 8 14))
   \<and> search mating_engine mate_in_one_board = Move_found (py ''1_2'') (py ''7_2'')
   \<and> legal_moves mating_engine (carry mate_in_one_board (step 8 14)) = []
   \<and> search mating_engine (carry mate_in_one_board (step 8 14)) = Game_over_or_no_move
   \<and> legal_moves scripted_engine rooks_board = [step 56 0, step 59 51]
   \<and> search scripted_engine rooks_board = Move_found (py ''1_8'') (py ''1_1'')"
proof -
  have two: "legal_moves scripted_engine rooks_board = [step 56 0, step 59 51]"
    by (simp add: scripted_simps)
  let ?root = "root_loop scripted_engine (legal_moves scripted_engine rooks_board) None NegInf
      rooks_board"
  have "fst ?root = Inr (Some (step 56 0))"
    by (simp add: scripted_simps two_plies less_score_def)
  then obtain b' where "?root = (Inr (Some (step 56 0)), b')"
    by (metis prod.collapse)
  then have "search scripted_engine rooks_board = answer (Some (step 56 0))"
    by (simp add: search_def)
  moreover have "answer (Some (step 56 0)) = Move_found (py ''1_8'') (py ''1_1'')"
    using answer_of_move [of "step 56 0"]
    by (simp add: step_def external_name_def pair_name_def py_str_small py_def)
  ultimately have several: "search scripted_engine rooks_board = Move_found (py ''1_8'') (py ''1_1'')"
    by simp
  have one: "legal_moves mating_engine mate_in_one_board = [step 8 14]"
    by (simp add: mating_engine_def mate_in_one_board_def board_of_def)
  have none: "legal_moves mating_engine (carry mate_in_one_board (step 8 14)) = []"
    by (simp add: mating_engine_def carry_def)
  have score: "minimax mating_engine 2 NegInf PosInf False (carry mate_in_one_board (step 8 14))
       = (Inr (Fin (- 9999)), carry mate_in_one_board (step 8 14))"
    by (simp add: two_plies mating_engine_def carry_def evaluate_board_def mate_in_one_board_def
        board_of_def BLACK_def)
  have names: "external_name 8 = py ''1_2''" "external_name 14 = py ''7_2''"
    by (simp_all add: external_name_def pair_name_def py_str_small py_def)
  from root_search_moves_iff_legal_move [OF mating_engine_contract, of mate_in_one_board] one
  have "search mating_engine mate_in_one_board = Move_found (py ''1_2'') (py ''7_2'')"
    by (simp add: step_def names)
  moreover
  from root_search_moves_iff_legal_move [OF mating_engine_contract,
      of "carry mate_in_one_board (step 8 14)"] none
  have "search mating_engine (carry mate_in_one_board (step 8 14)) = Game_over_or_no_move"
    by simp
  ultimately show ?thesis
    using one none score two several by simp
qed

end
